theory Spec2Isabelle
  imports Complex_Main "HOL-Library.Multiset" "HOL-Library.Monad_Syntax" "HOL-Library.AList"
begin

section \<open>Data model\<close>

text \<open>
  A word is a Python tuple of letter codes (\<open>ord(c) - ord('a')\<close>, unbounded Python ints);
  a feedback is a Python list of the one-character strings \<open>'G'\<close>, \<open>'Y'\<close>, \<open>'B'\<close>.
  A raised exception (IndexError, ValueError, TypeError) is the value \<open>None\<close> of an
  option type. Printing (\<open>print_output\<close>) has no effect on any value and is left out.
\<close>

type_synonym word = "int list"
type_synonym feedback = "char list"

abbreviation G :: char where "G \<equiv> CHR ''G''"
abbreviation Y :: char where "Y \<equiv> CHR ''Y''"
abbreviation B :: char where "B \<equiv> CHR ''B''"

text \<open>\<open>xs[i]\<close> for a non-negative index: IndexError out of range.\<close>

definition index :: "'a list \<Rightarrow> nat \<Rightarrow> 'a option" where
  "index xs i = (if i < length xs then Some (xs ! i) else None)"

section \<open>get_feedback\<close>

text \<open>
  \<open>collections.Counter\<close>: a dict from keys to ints; reading a missing key gives 0 and
  does not insert it.
\<close>

type_synonym counter = "int \<rightharpoonup> int"

definition counter_get :: "counter \<Rightarrow> int \<Rightarrow> int" where
  "counter_get c k = (case c k of None \<Rightarrow> 0 | Some n \<Rightarrow> n)"

definition Counter :: "int list \<Rightarrow> counter" where
  "Counter xs = fold (\<lambda>x c. c(x \<mapsto> counter_get c x + 1)) xs Map.empty"

text \<open>Body of the first loop (lines 34-39), on the pair (feedback, target_counts).\<close>

definition first_pass_step :: "int \<times> int \<Rightarrow> feedback \<times> counter \<Rightarrow> feedback \<times> counter" where
  "first_pass_step gt st =
     (case (gt, st) of ((g_char, t_char), (fb, target_counts)) \<Rightarrow>
        if g_char = t_char
        then (fb @ [G], target_counts(g_char \<mapsto> counter_get target_counts g_char - 1))
        else (fb @ [B], target_counts))"

text \<open>
  Body of the second loop (lines 41-44). \<open>pos\<close> enumerates the same zip the first loop
  appended one mark for, so \<open>feedback[pos]\<close> is always in range.
\<close>

definition second_pass_step :: "nat \<times> int \<times> int \<Rightarrow> feedback \<times> counter \<Rightarrow> feedback \<times> counter" where
  "second_pass_step pgt st =
     (case (pgt, st) of ((pos, g_char, t_char), (fb, target_counts)) \<Rightarrow>
        if fb ! pos = B \<and> g_char \<in> dom target_counts \<and> counter_get target_counts g_char > 0
        then (fb[pos := Y], target_counts(g_char \<mapsto> counter_get target_counts g_char - 1))
        else (fb, target_counts))"

definition get_feedback :: "word \<Rightarrow> word \<Rightarrow> feedback" where
  "get_feedback guess target =
     fst (fold second_pass_step (enumerate 0 (zip guess target))
            (fold first_pass_step (zip guess target) ([], Counter target)))"

subsection \<open>The two-pass algorithm as the specification words it\<close>

text \<open>
  A second definition, written from the specification's description of the feedback
  engine and not from the code: marks are a three-valued type, the counter of remaining
  letters is a multiset initialised from the target's letters, the first pass marks
  Correct and takes the matched letters out of the counter, the second pass visits the
  positions that are not Correct and marks Present (taking one copy out) while the letter
  has copies left, Absent otherwise. It is compared with \<open>get_feedback\<close> below.
\<close>
datatype mark = Correct | Present | Absent

fun mark_char :: "mark \<Rightarrow> char" where
  "mark_char Correct = G"
| "mark_char Present = Y"
| "mark_char Absent = B"

definition first_pass_marks :: "word \<Rightarrow> word \<Rightarrow> mark list" where
  "first_pass_marks guess target = map (\<lambda>(g, t). if g = t then Correct else Absent) (zip guess target)"

definition first_pass_remaining :: "word \<Rightarrow> word \<Rightarrow> int multiset" where
  "first_pass_remaining guess target = mset target - mset (map fst (filter (\<lambda>(g, t). g = t) (zip guess target)))"

fun second_pass_marks :: "int multiset \<Rightarrow> (mark \<times> int) list \<Rightarrow> mark list" where
  "second_pass_marks remaining [] = []"
| "second_pass_marks remaining ((m, g) # rest) =
     (if m = Correct then Correct # second_pass_marks remaining rest
      else if count remaining g > 0 then Present # second_pass_marks (remaining - {#g#}) rest
      else Absent # second_pass_marks remaining rest)"

definition feedback_spec :: "word \<Rightarrow> word \<Rightarrow> mark list" where
  "feedback_spec guess target =
     second_pass_marks (first_pass_remaining guess target) (zip (first_pass_marks guess target) guess)"

text \<open>
  The relation used to compare the two: the Counter dict holds, for every letter, the
  number of copies the multiset has (a missing key reads as 0).
\<close>

definition counts :: "counter \<Rightarrow> int multiset \<Rightarrow> bool" where
  "counts c M \<longleftrightarrow> (\<forall>k. counter_get c k = int (count M k))"

section \<open>filter_valid_words\<close>

text \<open>
  The three inner loops of \<open>filter_valid_words\<close> (lines 160-163, 167-171, 175-179), each
  returning the value \<open>valid_word\<close> has when the loop ends or breaks. Indexing follows
  Python's evaluation order, so a word, guess or feedback that is too short raises exactly
  where the code would read past its end.
\<close>
fun green_ok :: "word \<Rightarrow> word \<Rightarrow> feedback \<Rightarrow> nat list \<Rightarrow> bool option" where
  "green_ok word guess fb [] = Some True"
| "green_ok word guess fb (pos # ps) = do {
     f \<leftarrow> index fb pos;
     if f = G then do {
       w \<leftarrow> index word pos;
       g \<leftarrow> index guess pos;
       if w \<noteq> g then Some False else green_ok word guess fb ps
     } else green_ok word guess fb ps
   }"

fun yellow_ok :: "word \<Rightarrow> word \<Rightarrow> feedback \<Rightarrow> nat list \<Rightarrow> bool option" where
  "yellow_ok word guess fb [] = Some True"
| "yellow_ok word guess fb (pos # ps) = do {
     f \<leftarrow> index fb pos;
     if f = Y then do {
       w \<leftarrow> index word pos;
       g \<leftarrow> index guess pos;
       if w = g \<or> g \<notin> set word then Some False else yellow_ok word guess fb ps
     } else yellow_ok word guess fb ps
   }"

fun select_chars :: "word \<Rightarrow> feedback \<Rightarrow> (char \<Rightarrow> bool) \<Rightarrow> nat list \<Rightarrow> int list option" where
  "select_chars guess fb P [] = Some []"
| "select_chars guess fb P (pos # ps) = do {
     f \<leftarrow> index fb pos;
     if P f then do {
       g \<leftarrow> index guess pos;
       rest \<leftarrow> select_chars guess fb P ps;
       Some (g # rest)
     } else select_chars guess fb P ps
   }"

fun gray_ok :: "word \<Rightarrow> word \<Rightarrow> feedback \<Rightarrow> int list \<Rightarrow> bool option" where
  "gray_ok word guess fb [] = Some True"
| "gray_ok word guess fb (char # cs) =
     (if char \<in> set word then do {
        marked \<leftarrow> select_chars guess fb (\<lambda>f. f = G \<or> f = Y) [0..<5];
        if char \<notin> set marked then Some False else gray_ok word guess fb cs
      } else gray_ok word guess fb cs)"

definition word_valid :: "word \<Rightarrow> word \<Rightarrow> feedback \<Rightarrow> bool option" where
  "word_valid word guess fb = do {
     v1 \<leftarrow> green_ok word guess fb [0..<5];
     if \<not> v1 then Some False else do {
       v2 \<leftarrow> yellow_ok word guess fb [0..<5];
       if \<not> v2 then Some False else do {
         gray_chars \<leftarrow> select_chars guess fb (\<lambda>f. f = B) [0..<5];
         gray_ok word guess fb gray_chars
       }
     }
   }"

fun filter_loop :: "word list \<Rightarrow> word \<Rightarrow> feedback \<Rightarrow> word list \<Rightarrow> word list option" where
  "filter_loop [] guess fb valid = Some valid"
| "filter_loop (word # ws) guess fb valid = do {
     v \<leftarrow> word_valid word guess fb;
     filter_loop ws guess fb (if v then valid @ [word] else valid)
   }"

definition filter_valid_words :: "word list \<Rightarrow> word \<Rightarrow> feedback \<Rightarrow> word list option" where
  "filter_valid_words words_data guess fb = filter_loop words_data guess fb []"

text \<open>
  A predicate used in the proofs only: what the three loops decide about one word when
  nothing is read out of range. \<open>word_valid_pure\<close> below proves that the loops compute it.
\<close>

definition consistent :: "word \<Rightarrow> feedback \<Rightarrow> word \<Rightarrow> bool" where
  "consistent guess fb word \<longleftrightarrow>
     (\<forall>pos<5. fb ! pos = G \<longrightarrow> word ! pos = guess ! pos) \<and>
     (\<forall>pos<5. fb ! pos = Y \<longrightarrow> word ! pos \<noteq> guess ! pos \<and> guess ! pos \<in> set word) \<and>
     (\<forall>pos<5. fb ! pos = B \<longrightarrow> guess ! pos \<in> set word \<longrightarrow>
        (\<exists>p<5. (fb ! p = G \<or> fb ! p = Y) \<and> guess ! p = guess ! pos))"

section \<open>The constraint model and the solver\<close>

text \<open>
  OR-tools is a library the repository imports, not code of the repository. The model
  keeps what \<open>solve_wordle\<close> puts into its \<open>CpModel\<close> object, in the order it is added,
  and takes the solver (\<open>CpSolver().Solve\<close> followed by \<open>solver.Value\<close> on the five
  position variables) as a parameter: a function from the model to a status and the values
  of \<open>position_vars[0..4]\<close>.

  Only constraints that mention the position variables are kept with their content:
  \<^item> \<open>AllowedAssignments ts\<close>: \<open>model.AddAllowedAssignments(position_vars, ts)\<close>;
  \<^item> \<open>VarEq pos char\<close>, \<open>VarNeq pos char\<close>: \<open>model.Add(position_vars[pos] == char)\<close>
    and \<open>model.Add(position_vars[pos] != char)\<close>;
  \<^item> \<open>OccursAtLeast char gray count\<close>: lines 78-83 of \<open>update_model\<close>, five fresh
    Booleans \<open>occurs[p]\<close>, tied to \<open>position_vars[p] == char\<close> for every \<open>p\<close> outside
    \<open>gray\<close> and left free for \<open>p\<close> in \<open>gray\<close>, with \<open>sum(occurs) >= count\<close>;
  \<^item> \<open>Channeling\<close>: the auxiliary Booleans and \<open>num_duplicates\<close> that one call of
    \<open>update_heuristic\<close> adds; every assignment of the position variables extends to them.
\<close>

datatype status = OPTIMAL | FEASIBLE | INFEASIBLE | MODEL_INVALID | UNKNOWN

datatype constr =
    AllowedAssignments "word list"
  | VarEq nat int
  | VarNeq nat int
  | OccursAtLeast int "nat list" int
  | Channeling

text \<open>
  \<open>Maximize table c\<close> is the objective
  \<open>sum(is_char[pos][char] * table[pos][char]) + c * num_duplicates\<close>.
\<close>

datatype objective = Maximize "int list list" int

record cp_model =
  constraints :: "constr list"
  objective :: "objective option"

type_synonym solver = "cp_model \<Rightarrow> status \<times> (nat \<Rightarrow> int)"

text \<open>
  A Python dict with int keys, in insertion order. \<open>dict_get d k v\<close> reads a key with
  default \<open>v\<close> (\<open>d.get(k, v)\<close>, or \<open>d[k]\<close> on a \<open>defaultdict\<close> or \<open>Counter\<close>, whose
  insertion of the missing key changes no later read); \<open>AList.update\<close> is \<open>d[k] = v\<close>.
\<close>

type_synonym 'v pydict = "(int \<times> 'v) list"

definition dict_get :: "'v pydict \<Rightarrow> int \<Rightarrow> 'v \<Rightarrow> 'v" where
  "dict_get d k v = (case map_of d k of None \<Rightarrow> v | Some x \<Rightarrow> x)"

definition dict_incr :: "int \<Rightarrow> int pydict \<Rightarrow> int pydict" where
  "dict_incr k d = AList.update k (dict_get d k 0 + 1) d"

subsection \<open>update_model\<close>

text \<open>
  The first loop of \<open>update_model\<close> (lines 60-71) on the triple of the constraints added
  so far, \<open>letter_counts\<close> and \<open>gray_positions\<close>.
\<close>

fun scan_feedback :: "word \<Rightarrow> feedback \<Rightarrow> nat list
    \<Rightarrow> constr list \<times> int pydict \<times> nat list pydict
    \<Rightarrow> (constr list \<times> int pydict \<times> nat list pydict) option" where
  "scan_feedback guess fb [] acc = Some acc"
| "scan_feedback guess fb (pos # ps) (cs, letter_counts, gray_positions) = do {
     char \<leftarrow> index guess pos;
     f \<leftarrow> index fb pos;
     if f = G then
       scan_feedback guess fb ps (cs @ [VarEq pos char], dict_incr char letter_counts, gray_positions)
     else if f = Y then
       scan_feedback guess fb ps (cs @ [VarNeq pos char], dict_incr char letter_counts, gray_positions)
     else if f = B then
       scan_feedback guess fb ps (cs, letter_counts,
         AList.update char (dict_get gray_positions char [] @ [pos]) gray_positions)
     else scan_feedback guess fb ps (cs, letter_counts, gray_positions)
   }"

definition gray_constraints :: "nat list pydict \<Rightarrow> constr list" where
  "gray_constraints gray_positions =
     concat (map (\<lambda>(char, positions). map (\<lambda>pos. VarNeq pos char) positions) gray_positions)"

definition count_constraints :: "int pydict \<Rightarrow> nat list pydict \<Rightarrow> constr list" where
  "count_constraints letter_counts gray_positions =
     map (\<lambda>(char, count). OccursAtLeast char (dict_get gray_positions char []) count) letter_counts"

definition update_model :: "cp_model \<Rightarrow> word \<Rightarrow> feedback \<Rightarrow> cp_model option" where
  "update_model model guess fb = do {
     (cs, letter_counts, gray_positions) \<leftarrow> scan_feedback guess fb [0..<5] (constraints model, [], []);
     Some (model\<lparr>constraints :=
       cs @ gray_constraints gray_positions @ count_constraints letter_counts gray_positions\<rparr>)
   }"

subsection \<open>update_heuristic\<close>

text \<open>
  Python floats are modelled by exact rationals: the frequencies are quotients of two
  counts, and \<open>int(x)\<close> truncates towards zero. Rounding of the float product is not
  modelled; no claim depends on the value of a score.
\<close>

definition py_int :: "rat \<Rightarrow> int" where
  "py_int x = (if 0 \<le> x then \<lfloor>x\<rfloor> else \<lceil>x\<rceil>)"

definition score :: "rat pydict list \<Rightarrow> rat pydict \<Rightarrow> nat \<Rightarrow> int \<Rightarrow> int" where
  "score positional_freq letter_frequency pos char =
     py_int (1000 * dict_get (positional_freq ! pos) char 0 + 2000 * dict_get letter_frequency char 0)"

definition heuristic :: "rat pydict list \<Rightarrow> rat pydict \<Rightarrow> objective" where
  "heuristic positional_freq letter_frequency =
     Maximize (map (\<lambda>pos. map (\<lambda>char. score positional_freq letter_frequency pos char) [0..25]) [0..<5])
              (- 500)"

definition update_heuristic :: "cp_model \<Rightarrow> rat pydict list \<Rightarrow> rat pydict \<Rightarrow> cp_model" where
  "update_heuristic model positional_freq letter_frequency =
     model\<lparr>constraints := constraints model @ [Channeling],
           objective := Some (heuristic positional_freq letter_frequency)\<rparr>"

subsection \<open>AddAllowedAssignments\<close>

text \<open>
  The library raises TypeError when a tuple does not have one value per variable; the
  tuples are copied into the model when the call is made.
\<close>

definition add_allowed_assignments :: "cp_model \<Rightarrow> word list \<Rightarrow> cp_model option" where
  "add_allowed_assignments model tuples =
     (if list_all (\<lambda>t. length t = 5) tuples
      then Some (model\<lparr>constraints := constraints model @ [AllowedAssignments tuples]\<rparr>)
      else None)"

subsection \<open>What a solver may return\<close>

text \<open>
  The contract of the solver parameter: with status OPTIMAL or FEASIBLE, the values of the
  five position variables lie in their domain \<open>0..25\<close> (\<open>NewIntVar(0, 25, ...)\<close>) and
  meet every constraint of the model. An \<open>occurs[p]\<close> that is left free can be set to
  true, so \<open>sum(occurs) >= count\<close> holds exactly when the positions that are gray or
  hold the letter are at least \<open>count\<close> many.
\<close>

fun sat :: "constr \<Rightarrow> word \<Rightarrow> bool" where
  "sat (AllowedAssignments tuples) w \<longleftrightarrow> w \<in> set tuples"
| "sat (VarEq pos char) w \<longleftrightarrow> w ! pos = char"
| "sat (VarNeq pos char) w \<longleftrightarrow> w ! pos \<noteq> char"
| "sat (OccursAtLeast char gray cnt) w \<longleftrightarrow>
     cnt \<le> int (length (filter (\<lambda>p. p \<in> set gray \<or> w ! p = char) [0..<5]))"
| "sat Channeling w \<longleftrightarrow> True"

definition satisfies :: "cp_model \<Rightarrow> word \<Rightarrow> bool" where
  "satisfies m w \<longleftrightarrow>
     length w = 5 \<and> list_all (\<lambda>c. 0 \<le> c \<and> c \<le> 25) w \<and> list_all (\<lambda>c. sat c w) (constraints m)"

definition sound :: "solver \<Rightarrow> bool" where
  "sound solver \<longleftrightarrow>
     (\<forall>m. fst (solver m) = OPTIMAL \<or> fst (solver m) = FEASIBLE
            \<longrightarrow> satisfies m (map (snd (solver m)) [0..<5]))"

subsection \<open>A reference solver\<close>

text \<open>
  An exhaustive solver for models with a table constraint, used to run the examples: it
  tries the tuples of the table constraints, keeps those that satisfy the model, and
  returns the first one of maximal objective value with status OPTIMAL, or INFEASIBLE
  when none is left. \<open>num_duplicates\<close> is the number of letters that occur more than
  once: the free Booleans of \<open>update_heuristic\<close> are false at an optimum.
\<close>

definition num_duplicates :: "word \<Rightarrow> int" where
  "num_duplicates w = int (length (filter (\<lambda>char. 1 < count_list w char) [0..25]))"

fun objective_value :: "objective option \<Rightarrow> word \<Rightarrow> int" where
  "objective_value None w = 0"
| "objective_value (Some (Maximize table c_dup)) w =
     sum_list (map (\<lambda>pos. table ! pos ! nat (w ! pos)) [0..<5]) + c_dup * num_duplicates w"

fun first_best :: "(word \<Rightarrow> int) \<Rightarrow> word \<Rightarrow> word list \<Rightarrow> word" where
  "first_best f b [] = b"
| "first_best f b (w # ws) = first_best f (if f b < f w then w else b) ws"

fun table_tuples :: "constr list \<Rightarrow> word list" where
  "table_tuples [] = []"
| "table_tuples (AllowedAssignments ts # cs) = ts @ table_tuples cs"
| "table_tuples (c # cs) = table_tuples cs"

definition exhaustive_solver :: solver where
  "exhaustive_solver m =
     (case filter (satisfies m) (table_tuples (constraints m)) of
        [] \<Rightarrow> (INFEASIBLE, \<lambda>i. 0)
      | w # ws \<Rightarrow> (OPTIMAL, \<lambda>i. first_best (objective_value (objective m)) w ws ! i))"

section \<open>solve_wordle\<close>

subsection \<open>Letter frequencies (lines 201-217)\<close>

fun tally_word :: "word \<Rightarrow> nat list \<Rightarrow> int pydict list \<Rightarrow> int pydict list option" where
  "tally_word word [] pf = Some pf"
| "tally_word word (pos # ps) pf = do {
     char \<leftarrow> index word pos;
     tally_word word ps (pf[pos := dict_incr char (pf ! pos)])
   }"

fun tally_words :: "word list \<Rightarrow> int pydict list \<Rightarrow> int pydict list option" where
  "tally_words [] pf = Some pf"
| "tally_words (word # ws) pf = do {
     pf' \<leftarrow> tally_word word [0..<5] pf;
     tally_words ws pf'
   }"

definition normalise :: "int \<Rightarrow> int pydict \<Rightarrow> rat pydict" where
  "normalise n d = map (\<lambda>(char, freq). (char, of_int freq / of_int n)) d"

text \<open>
  \<open>freq / n\<close> is only evaluated for a key of the dict, and a dict with a key was
  counted from at least one word, so neither division is by zero.
\<close>

definition positional_frequencies :: "word list \<Rightarrow> rat pydict list option" where
  "positional_frequencies valid_words = do {
     pf \<leftarrow> tally_words valid_words (replicate 5 []);
     Some (map (\<lambda>d. normalise (sum_list (map snd d)) d) pf)
   }"

definition letter_frequencies :: "word list \<Rightarrow> rat pydict" where
  "letter_frequencies valid_words =
     normalise (int (length valid_words)) (fold dict_incr (concat valid_words) [])"

subsection \<open>The state of a run\<close>

text \<open>
  List objects live in a store, by address, because the claims about the caller's list
  depend on which object \<open>valid_words\<close> names: the parameter first names the caller's
  list (address 0); \<open>valid_words.remove(guess)\<close> changes the object it names; the
  assignment in line 274 makes it name the fresh list \<open>filter_valid_words\<close> built.
  The other fields are the local variables that the loop reads or writes.
\<close>

record response =
  guesses :: "string list"
  feedback :: "feedback list"
  nb_possible_words :: "nat list"

record solve_state =
  heap :: "nat \<Rightarrow> word list"
  valid_words :: nat
  fresh :: nat
  positional_freq :: "rat pydict list"
  letter_frequency :: "rat pydict"
  model :: cp_model
  response :: response

definition current :: "solve_state \<Rightarrow> word list" where
  "current s = heap s (valid_words s)"

text \<open>\<open>xs.remove(x)\<close>: the first occurrence goes; ValueError when there is none.\<close>

definition list_remove :: "'a list \<Rightarrow> 'a \<Rightarrow> 'a list option" where
  "list_remove xs x = (if x \<in> set xs then Some (remove1 x xs) else None)"

text \<open>
  \<open>chr(n)\<close>. Characters of the model are bytes: a code point from 256 on is treated like
  one out of Python's range. The position variables have domain \<open>0..25\<close>, so a solver
  that respects the model only leads to \<open>chr(97)..chr(122)\<close>.
\<close>

definition chr :: "int \<Rightarrow> char option" where
  "chr n = (if 0 \<le> n \<and> n < 256 then Some (char_of n) else None)"

definition ord :: "char \<Rightarrow> int" where
  "ord c = of_char c"

definition encode :: "string \<Rightarrow> word" where
  "encode w = map (\<lambda>c. ord c - ord CHR ''a'') w"

definition decode :: "word \<Rightarrow> string option" where
  "decode guess = those (map (\<lambda>c. chr (c + ord CHR ''a'')) guess)"

subsection \<open>One pass of the loop body (lines 242-279)\<close>

definition prepare :: "solve_state \<Rightarrow> cp_model option" where
  "prepare s = do {
     m \<leftarrow> add_allowed_assignments (model s) (current s);
     Some (update_heuristic m (positional_freq s) (letter_frequency s))
   }"

datatype 'a flow = Continue 'a | Return 'a

definition record_guess :: "string \<Rightarrow> nat \<Rightarrow> feedback \<Rightarrow> response \<Rightarrow> response" where
  "record_guess guess_str n fb r =
     r\<lparr>guesses := guesses r @ [guess_str],
       nb_possible_words := nb_possible_words r @ [n],
       feedback := feedback r @ [fb]\<rparr>"

definition attempt :: "solver \<Rightarrow> word \<Rightarrow> solve_state \<Rightarrow> solve_state flow option" where
  "attempt solver target_as_int s = do {
     m \<leftarrow> prepare s;
     if fst (solver m) = OPTIMAL \<or> fst (solver m) = FEASIBLE then do {
       let guess = map (snd (solver m)) [0..<5];
       remaining \<leftarrow> list_remove (current s) guess;
       guess_str \<leftarrow> decode guess;
       let fb = get_feedback guess target_as_int;
       let s' = s\<lparr>heap := (heap s)(valid_words s := remaining),
                  model := m,
                  response := record_guess guess_str (length remaining) fb (response s)\<rparr>;
       if fb = replicate 5 G then Some (Return s')
       else do {
         filtered \<leftarrow> filter_valid_words remaining guess fb;
         m' \<leftarrow> update_model m guess fb;
         Some (Continue (s'\<lparr>heap := (heap s')(fresh s := filtered),
                            valid_words := fresh s,
                            fresh := Suc (fresh s),
                            model := m'\<rparr>))
       }
     } else Some (Return (s\<lparr>model := m\<rparr>))
   }"

text \<open>\<open>for attempt in range(n)\<close>, from a given state; falling out of the loop returns too.\<close>

fun attempts :: "solver \<Rightarrow> word \<Rightarrow> nat \<Rightarrow> solve_state \<Rightarrow> solve_state option" where
  "attempts solver target_as_int 0 s = Some s"
| "attempts solver target_as_int (Suc n) s =
     (case attempt solver target_as_int s of
        None \<Rightarrow> None
      | Some (Return s') \<Rightarrow> Some s'
      | Some (Continue s') \<Rightarrow> attempts solver target_as_int n s')"

subsection \<open>The function\<close>

definition start :: "word list \<Rightarrow> solve_state option" where
  "start words = do {
     pf \<leftarrow> positional_frequencies words;
     Some \<lparr>heap = (\<lambda>a. [])(0 := words), valid_words = 0, fresh = 1,
           positional_freq = pf, letter_frequency = letter_frequencies words,
           model = \<lparr>constraints = [], objective = None\<rparr>,
           response = \<lparr>guesses = [], feedback = [], nb_possible_words = []\<rparr>\<rparr>
   }"

text \<open>
  The result is the returned dict together with the contents, after the call, of the list
  object the caller passed. \<open>range(max_attempts)\<close> is empty for a negative argument.
\<close>

definition solve_wordle :: "solver \<Rightarrow> word list \<Rightarrow> string \<Rightarrow> int \<Rightarrow> (response \<times> word list) option" where
  "solve_wordle solver words target_word max_attempts = do {
     s0 \<leftarrow> start words;
     s \<leftarrow> attempts solver (encode target_word) (nat max_attempts) s0;
     Some (response s, heap s 0)
   }"

subsection \<open>Auxiliary notions for the statements and proofs\<close>

text \<open>The state a pass of the loop body leaves, whether the loop goes on or returns.\<close>

fun flow_state :: "'a flow \<Rightarrow> 'a" where
  "flow_state (Continue s) = s"
| "flow_state (Return s) = s"

text \<open>
  The solver finds no assignment for the model of the coming round: any status other than
  OPTIMAL and FEASIBLE, which sends the code to its \<open>else\<close> branch (lines 276-279).
\<close>

definition no_solution :: "solver \<Rightarrow> solve_state \<Rightarrow> bool" where
  "no_solution solver s =
     (case prepare s of None \<Rightarrow> False
      | Some m \<Rightarrow> fst (solver m) \<noteq> OPTIMAL \<and> fst (solver m) \<noteq> FEASIBLE)"

text \<open>
  No word of the current candidate list meets the constraints of the model of the coming
  round.
\<close>

definition unsatisfiable :: "solve_state \<Rightarrow> bool" where
  "unsatisfiable s =
     (case prepare s of None \<Rightarrow> False
      | Some m \<Rightarrow> \<not> list_ex (satisfies m) (current s))"

text \<open>
  Invariant of the loop, used for the claim on repeated guesses: every guess made so far
  is the text of a word that some \<open>VarNeq\<close> constraint of the model rules out.
\<close>

definition guessed_excluded :: "solve_state \<Rightarrow> bool" where
  "guessed_excluded s \<longleftrightarrow>
     (\<forall>gs\<in>set (guesses (response s)). \<exists>w p.
         decode w = Some gs \<and> length w = 5 \<and> (\<forall>c\<in>set w. 0 \<le> c \<and> c \<le> 25) \<and> p < 5 \<and>
         VarNeq p (w ! p) \<in> set (constraints (model s)))"

subsection \<open>The dictionary of the examples\<close>

text \<open>
  The four words of the specification's end-to-end scenario, encoded as \<open>api.py\<close> encodes
  its dictionary (line 17), and the states of two runs on it with the reference solver:
  before the first round, after one round against the target crane, and after one round
  against a target that shares no letter with the dictionary.
\<close>

definition words_data :: "word list" where
  "words_data = map encode [''crane'', ''slate'', ''irate'', ''trace'']"

definition first_state :: solve_state where
  "first_state = the (start words_data)"

definition stuck_state :: solve_state where
  "stuck_state = the (attempts exhaustive_solver (encode ''zzzzz'') 1 first_state)"

definition after_first_round :: "solve_state option" where
  "after_first_round =
     Option.bind (start words_data) (attempts exhaustive_solver (encode ''crane'') 1)"

text \<open>
  The objective the model carries when it is handed to the solver in the next round, and
  the objective \<open>update_heuristic\<close> builds from the letter frequencies of a given list.
\<close>

definition next_objective :: "solve_state option \<Rightarrow> objective option option" where
  "next_objective st = Option.bind st (\<lambda>s. map_option objective (prepare s))"

definition objective_from :: "word list \<Rightarrow> objective option" where
  "objective_from ws =
     map_option (\<lambda>pf. heuristic pf (letter_frequencies ws)) (positional_frequencies ws)"

section \<open>Properties of get_feedback\<close>

subsection \<open>The Counter dict against the multiset of remaining letters\<close>

lemma counter_get_upd [simp]: "counter_get (c(k \<mapsto> n)) j = (if j = k then n else counter_get c j)"
  by (simp add: counter_get_def)

lemma counter_get_dom: "0 < counter_get c k \<Longrightarrow> k \<in> dom c"
  by (auto simp: counter_get_def split: option.splits)

lemma counts_positive: "counts c M \<Longrightarrow> (k \<in> dom c \<and> counter_get c k > 0) \<longleftrightarrow> count M k > 0"
  using counter_get_dom[of c k] by (auto simp: counts_def)

lemma counts_decr:
  assumes "counts c M" "count M k > 0"
  shows "counts (c(k \<mapsto> counter_get c k - 1)) (M - {#k#})"
  using assms by (auto simp: counts_def)

lemma counts_incr:
  assumes "counts c M"
  shows "counts (c(k \<mapsto> counter_get c k + 1)) (add_mset k M)"
  using assms by (auto simp: counts_def)

lemma counts_fold:
  "counts c M \<Longrightarrow> counts (fold (\<lambda>x c. c(x \<mapsto> counter_get c x + 1)) xs c) (M + mset xs)"
proof (induction xs arbitrary: c M)
  case Nil then show ?case by simp
next
  case (Cons x xs)
  from counts_incr[OF Cons.prems, of x] have "counts (c(x \<mapsto> counter_get c x + 1)) (add_mset x M)" .
  from Cons.IH[OF this] show ?case by simp
qed

lemma counts_Counter: "counts (Counter xs) (mset xs)"
  using counts_fold[of Map.empty "{#}" xs] by (simp add: Counter_def counts_def counter_get_def)

lemma first_pass_step_simp:
  "first_pass_step (g, t) (fb, c) =
     (if g = t then (fb @ [G], c(g \<mapsto> counter_get c g - 1)) else (fb @ [B], c))"
  by (simp add: first_pass_step_def)

lemma first_pass_fold:
  assumes "counts c M" "mset (map snd zs) \<subseteq># M"
  shows "\<exists>c'. fold first_pass_step zs (fb, c) =
            (fb @ map (\<lambda>(g, t). if g = t then G else B) zs, c')
          \<and> counts c' (M - mset (map fst (filter (\<lambda>(g, t). g = t) zs)))"
  using assms
proof (induction zs arbitrary: fb c M)
  case Nil then show ?case by simp
next
  case (Cons z zs)
  obtain g t where z: "z = (g, t)" by (cases z)
  have ins: "add_mset t (mset (map snd zs)) \<subseteq># M" using Cons.prems(2) z by simp
  show ?case
  proof (cases "g = t")
    case True
    have "t \<in># M" using ins by (simp add: insert_subset_eq_iff)
    then have tM: "count M g > 0" using True by simp
    have c1: "counts (c(g \<mapsto> counter_get c g - 1)) (M - {#g#})"
      using counts_decr[OF Cons.prems(1) tM] .
    have sub: "mset (map snd zs) \<subseteq># M - {#g#}"
      using ins True by (simp add: insert_subset_eq_iff)
    from Cons.IH[OF c1 sub, of "fb @ [G]"] obtain c' where
      "fold first_pass_step zs (fb @ [G], c(g \<mapsto> counter_get c g - 1)) =
         ((fb @ [G]) @ map (\<lambda>(g, t). if g = t then G else B) zs, c')"
      "counts c' (M - {#g#} - mset (map fst (filter (\<lambda>(g, t). g = t) zs)))" by blast
    then show ?thesis
      using z True by (simp add: first_pass_step_simp)
  next
    case False
    have sub: "mset (map snd zs) \<subseteq># M"
      using ins by (simp add: insert_subset_eq_iff) (meson diff_subset_eq_self subset_mset.order_trans)
    from Cons.IH[OF Cons.prems(1) sub, of "fb @ [B]"] show ?thesis
      using z False by (simp add: first_pass_step_simp)
  qed
qed

lemma second_pass_step_simp:
  "second_pass_step (pos, g, t) (fb, c) =
     (if fb ! pos = B \<and> g \<in> dom c \<and> counter_get c g > 0
      then (fb[pos := Y], c(g \<mapsto> counter_get c g - 1)) else (fb, c))"
  by (simp add: second_pass_step_def)

lemma second_pass_fold:
  assumes "counts c M" "length pre = k" "length ms = length zs" "set ms \<subseteq> {Correct, Absent}"
  shows "fst (fold second_pass_step (enumerate k zs) (pre @ map mark_char ms, c)) =
           pre @ map mark_char (second_pass_marks M (zip ms (map fst zs)))"
  using assms
proof (induction zs arbitrary: pre ms c M k)
  case Nil then show ?case by simp
next
  case (Cons z zs)
  obtain g t where z: "z = (g, t)" by (cases z)
  from Cons.prems(3) obtain m ms' where ms: "ms = m # ms'" "length ms' = length zs"
    by (cases ms) auto
  have nth: "(pre @ map mark_char ms) ! k = mark_char m"
    using Cons.prems(2) ms by (simp add: nth_append)
  have sub: "set ms' \<subseteq> {Correct, Absent}" using Cons.prems(4) ms by simp
  have len: "length (pre @ [x]) = Suc k" for x :: char using Cons.prems(2) by simp
  consider (corr) "m = Correct" | (abs) "m = Absent" using Cons.prems(4) ms by auto
  then show ?case
  proof cases
    case corr
    have "second_pass_step (k, g, t) (pre @ map mark_char ms, c) =
            ((pre @ [G]) @ map mark_char ms', c)"
      unfolding second_pass_step_simp using nth corr ms by simp
    then have "fst (fold second_pass_step (enumerate k (z # zs)) (pre @ map mark_char ms, c)) =
          fst (fold second_pass_step (enumerate (Suc k) zs) ((pre @ [G]) @ map mark_char ms', c))"
      by (simp add: z)
    also have "\<dots> = (pre @ [G]) @ map mark_char (second_pass_marks M (zip ms' (map fst zs)))"
      by (rule Cons.IH[OF Cons.prems(1) len ms(2) sub])
    finally show ?thesis using z ms corr by simp
  next
    case abs
    show ?thesis
    proof (cases "count M g > 0")
      case True
      then have cond: "g \<in> dom c \<and> counter_get c g > 0"
        using counts_positive[OF Cons.prems(1), of g] by simp
      have upd: "(pre @ map mark_char ms)[k := Y] = (pre @ [Y]) @ map mark_char ms'"
        using Cons.prems(2) ms by (simp add: list_update_append)
      have "second_pass_step (k, g, t) (pre @ map mark_char ms, c) =
              ((pre @ [Y]) @ map mark_char ms', c(g \<mapsto> counter_get c g - 1))"
        unfolding second_pass_step_simp upd using nth abs cond by simp
      then have "fst (fold second_pass_step (enumerate k (z # zs)) (pre @ map mark_char ms, c)) =
            fst (fold second_pass_step (enumerate (Suc k) zs)
                  ((pre @ [Y]) @ map mark_char ms', c(g \<mapsto> counter_get c g - 1)))"
        by (simp add: z)
      also have "\<dots> = (pre @ [Y]) @ map mark_char (second_pass_marks (M - {#g#}) (zip ms' (map fst zs)))"
        by (rule Cons.IH[OF counts_decr[OF Cons.prems(1) True] len ms(2) sub])
      finally show ?thesis using z ms abs True by simp
    next
      case False
      then have cond: "\<not> (g \<in> dom c \<and> counter_get c g > 0)"
        using counts_positive[OF Cons.prems(1), of g] by simp
      have "second_pass_step (k, g, t) (pre @ map mark_char ms, c) =
              ((pre @ [B]) @ map mark_char ms', c)"
        unfolding second_pass_step_simp using cond abs ms by auto
      then have "fst (fold second_pass_step (enumerate k (z # zs)) (pre @ map mark_char ms, c)) =
            fst (fold second_pass_step (enumerate (Suc k) zs) ((pre @ [B]) @ map mark_char ms', c))"
        by (simp add: z)
      also have "\<dots> = (pre @ [B]) @ map mark_char (second_pass_marks M (zip ms' (map fst zs)))"
        by (rule Cons.IH[OF Cons.prems(1) len ms(2) sub])
      finally show ?thesis using z ms abs False by simp
    qed
  qed
qed

lemma zip_map_zip_fst: "zip (map f (zip xs ys)) (map fst (zip xs ys)) = zip (map f (zip xs ys)) xs"
proof (induction xs arbitrary: ys)
  case Nil then show ?case by simp
next
  case (Cons x xs) then show ?case by (cases ys) simp_all
qed

lemma get_feedback_refines: "get_feedback guess target = map mark_char (feedback_spec guess target)"
proof -
  let ?zs = "zip guess target"
  have pre: "mset (map snd ?zs) \<subseteq># mset target"
    by (metis map_snd_zip_take mset_subset_eq_exists_conv append_take_drop_id mset_append)
  from first_pass_fold[OF counts_Counter pre, of "[]"] obtain c' where
    f1: "fold first_pass_step ?zs ([], Counter target) = (map (\<lambda>(g, t). if g = t then G else B) ?zs, c')"
    and c': "counts c' (first_pass_remaining guess target)"
    by (auto simp: first_pass_remaining_def)
  have m1: "map (\<lambda>(g, t). if g = t then G else B) ?zs = map mark_char (first_pass_marks guess target)"
    by (auto simp: first_pass_marks_def)
  have z1: "zip (first_pass_marks guess target) (map fst ?zs) = zip (first_pass_marks guess target) guess"
    by (simp add: first_pass_marks_def zip_map_zip_fst)
  have len: "length (first_pass_marks guess target) = length ?zs"
    by (simp add: first_pass_marks_def)
  have rng: "set (first_pass_marks guess target) \<subseteq> {Correct, Absent}"
    by (auto simp: first_pass_marks_def)
  have e: "length ([]::feedback) = 0" by simp
  have "get_feedback guess target =
        [] @ map mark_char (second_pass_marks (first_pass_remaining guess target)
                              (zip (first_pass_marks guess target) (map fst ?zs)))"
    unfolding get_feedback_def f1 m1
    using second_pass_fold[OF c' e len rng] by simp
  then show ?thesis by (simp add: feedback_spec_def z1)
qed

subsection \<open>Facts about the second pass\<close>

lemma length_second_pass_marks [simp]: "length (second_pass_marks M ms) = length ms"
  by (induction M ms rule: second_pass_marks.induct) auto

lemma second_pass_marks_Correct:
  "i < length ms \<Longrightarrow> second_pass_marks M ms ! i = Correct \<longleftrightarrow> fst (ms ! i) = Correct"
proof (induction M ms arbitrary: i rule: second_pass_marks.induct)
  case (1 M) then show ?case by simp
next
  case (2 M m g rest) then show ?case by (cases i) auto
qed

lemma second_pass_marks_Present:
  "i < length ms \<Longrightarrow> second_pass_marks M ms ! i = Present \<Longrightarrow> snd (ms ! i) \<in># M"
proof (induction M ms arbitrary: i rule: second_pass_marks.induct)
  case (1 M) then show ?case by simp
next
  case (2 M m g rest)
  then show ?case
    by (cases i) (auto split: if_splits dest: in_diffD)
qed

lemma second_pass_marks_Absent:
  "i < length ms \<Longrightarrow> second_pass_marks M ms ! i = Absent \<Longrightarrow> snd (ms ! i) \<in># M \<Longrightarrow>
     \<exists>p<i. second_pass_marks M ms ! p = Present \<and> snd (ms ! p) = snd (ms ! i)"
proof (induction M ms arbitrary: i rule: second_pass_marks.induct)
  case (1 M) then show ?case by simp
next
  case (2 M m g rest)
  show ?case
  proof (cases i)
    case 0
    with "2.prems" show ?thesis by (auto split: if_splits)
  next
    case (Suc j)
    let ?a = "snd (rest ! j)"
    have j: "j < length rest" using "2.prems"(1) Suc by simp
    have aM: "?a \<in># M" using "2.prems"(3) Suc by simp
    show ?thesis
    proof (cases "m = Correct")
      case True
      then have "second_pass_marks M rest ! j = Absent" using "2.prems"(2) Suc by simp
      from "2.IH"(1)[OF True j this aM] obtain p where
        "p < j" "second_pass_marks M rest ! p = Present" "snd (rest ! p) = ?a" by blast
      then show ?thesis using True Suc by (intro exI[of _ "Suc p"]) simp
    next
      case False
      show ?thesis
      proof (cases "count M g > 0")
        case pos: True
        have abs: "second_pass_marks (M - {#g#}) rest ! j = Absent"
          using "2.prems"(2) Suc False pos by simp
        show ?thesis
        proof (cases "?a \<in># M - {#g#}")
          case True
          from "2.IH"(2)[OF False pos j abs True] obtain p where
            "p < j" "second_pass_marks (M - {#g#}) rest ! p = Present" "snd (rest ! p) = ?a" by blast
          then show ?thesis using False pos Suc by (intro exI[of _ "Suc p"]) simp
        next
          case nin: False
          have "?a = g" using aM nin by (cases "?a = g") (simp_all add: in_diff_count)
          then show ?thesis using False pos Suc by (intro exI[of _ 0]) simp
        qed
      next
        case npos: False
        then have "second_pass_marks M rest ! j = Absent" using "2.prems"(2) Suc False by simp
        from "2.IH"(3)[OF False npos j this aM] obtain p where
          "p < j" "second_pass_marks M rest ! p = Present" "snd (rest ! p) = ?a" by blast
        then show ?thesis using False npos Suc by (intro exI[of _ "Suc p"]) simp
      qed
    qed
  qed
qed

lemma second_pass_marks_hits:
  "length (filter (\<lambda>(r, a). r \<noteq> Absent \<and> a = L) (zip (second_pass_marks M ms) (map snd ms)))
     \<le> count M L + length (filter (\<lambda>(m, a). m = Correct \<and> a = L) ms)"
proof (induction M ms rule: second_pass_marks.induct)
  case (1 M) then show ?case by simp
next
  case (2 M m g rest)
  show ?case
  proof (cases "m = Correct")
    case True with "2.IH"(1) show ?thesis by simp
  next
    case False
    show ?thesis
    proof (cases "count M g > 0")
      case pos: True
      have cnt: "count (M - {#g#}) L + (if g = L then 1 else 0) = count M L"
        using pos by auto
      from "2.IH"(2)[OF False pos] cnt show ?thesis using False pos
        by (cases "g = L") (simp_all del: count_diff)
    next
      case npos: False
      from "2.IH"(3)[OF False npos] show ?thesis using False npos by simp
    qed
  qed
qed

subsection \<open>Position-wise reading of the feedback\<close>

lemma mark_char_eq [simp]:
  "mark_char m = G \<longleftrightarrow> m = Correct"
  "mark_char m = Y \<longleftrightarrow> m = Present"
  "mark_char m = B \<longleftrightarrow> m = Absent"
  by (cases m; simp)+

lemma length_first_pass_marks [simp]:
  "length (first_pass_marks guess target) = min (length guess) (length target)"
  by (simp add: first_pass_marks_def)

lemma first_pass_marks_nth:
  "i < length guess \<Longrightarrow> i < length target \<Longrightarrow>
     first_pass_marks guess target ! i = (if guess ! i = target ! i then Correct else Absent)"
  by (simp add: first_pass_marks_def)

lemma length_feedback_spec [simp]:
  "length (feedback_spec guess target) = min (length guess) (length target)"
  by (simp add: feedback_spec_def)

lemma length_get_feedback: "length (get_feedback guess target) = min (length guess) (length target)"
  by (simp add: get_feedback_refines)

lemma matched_subset:
  "mset (map fst (filter (\<lambda>(g, t). g = t) (zip guess target))) \<subseteq># mset target"
proof -
  have eq: "map fst (filter (\<lambda>(g, t). g = t) zs) = map snd (filter (\<lambda>(g, t). g = t) zs)"
    for zs :: "('a \<times> 'a) list"
    by (induction zs) auto
  have "mset (map fst (filter (\<lambda>(g, t). g = t) (zip guess target)))
           = mset (map snd (filter (\<lambda>(g, t). g = t) (zip guess target)))" by (subst eq) (rule refl)
  also have "\<dots> \<subseteq># mset (map snd (zip guess target))"
    by (simp add: image_mset_subseteq_mono)
  also have "\<dots> \<subseteq># mset target"
    by (metis map_snd_zip_take mset_subset_eq_exists_conv append_take_drop_id mset_append)
  finally show ?thesis .
qed

lemma get_feedback_G:
  assumes "i < length guess" "i < length target"
  shows "get_feedback guess target ! i = G \<longleftrightarrow> guess ! i = target ! i"
  using assms
  by (simp add: get_feedback_refines feedback_spec_def second_pass_marks_Correct first_pass_marks_nth)

lemma get_feedback_Y:
  assumes "i < length guess" "i < length target" "get_feedback guess target ! i = Y"
  shows "guess ! i \<in> set target"
proof -
  have "second_pass_marks (first_pass_remaining guess target) (zip (first_pass_marks guess target) guess) ! i = Present"
    using assms by (simp add: get_feedback_refines feedback_spec_def)
  then have "snd (zip (first_pass_marks guess target) guess ! i) \<in># first_pass_remaining guess target"
    using assms by (intro second_pass_marks_Present) simp_all
  then have "guess ! i \<in># mset target"
    using assms by (auto simp: first_pass_remaining_def dest: in_diffD)
  then show ?thesis by simp
qed

lemma get_feedback_B:
  assumes i: "i < length guess" "i < length target"
    and b: "get_feedback guess target ! i = B"
    and m: "guess ! i \<in> set target"
  shows "\<exists>p. p < length guess \<and> p < length target \<and> guess ! p = guess ! i \<and>
             (get_feedback guess target ! p = G \<or> get_feedback guess target ! p = Y)"
proof -
  let ?ms = "zip (first_pass_marks guess target) guess"
  let ?R = "first_pass_remaining guess target"
  let ?rs = "second_pass_marks ?R ?ms"
  let ?matched = "map fst (filter (\<lambda>(g, t). g = t) (zip guess target))"
  have fb: "get_feedback guess target = map mark_char ?rs"
    by (simp add: get_feedback_refines feedback_spec_def)
  have len: "i < length ?ms" using i by simp
  have abs: "?rs ! i = Absent" using b i by (simp add: fb)
  have snd_i: "snd (?ms ! i) = guess ! i" using i by simp
  show ?thesis
  proof (cases "guess ! i \<in># ?R")
    case True
    with second_pass_marks_Absent[OF len abs] snd_i obtain p where
      p: "p < i" "?rs ! p = Present" "snd (?ms ! p) = guess ! i" by auto
    then have "guess ! p = guess ! i" using i by simp
    moreover have "get_feedback guess target ! p = Y" using p i by (simp add: fb)
    ultimately show ?thesis using p(1) i by (intro exI[of _ p]) simp
  next
    case False
    then have "count (mset target) (guess ! i) \<le> count (mset ?matched) (guess ! i)"
      by (simp add: first_pass_remaining_def not_in_iff)
    moreover have "count (mset target) (guess ! i) > 0" using m by simp
    ultimately have "guess ! i \<in> set ?matched"
      by (metis count_greater_zero_iff not_less set_mset_mset not_gr_zero)
    then obtain g t where gt: "(g, t) \<in> set (zip guess target)" "g = t" "g = guess ! i" by auto
    then obtain p where p: "p < length guess" "p < length target" "guess ! p = g" "target ! p = t"
      by (auto simp: set_zip)
    then have "get_feedback guess target ! p = G" using gt by (simp add: get_feedback_G)
    then show ?thesis using p gt by (intro exI[of _ p]) simp
  qed
qed

lemma get_feedback_alphabet: "set (get_feedback guess target) \<subseteq> {G, Y, B}"
proof -
  have "mark_char m \<in> {G, Y, B}" for m by (cases m) simp_all
  then show ?thesis unfolding get_feedback_refines by (auto simp del: mark_char_eq)
qed

section \<open>Properties of filter_valid_words\<close>

lemma index_Some [simp]: "i < length xs \<Longrightarrow> index xs i = Some (xs ! i)"
  by (simp add: index_def)

lemma green_ok_pure:
  assumes "\<forall>p\<in>set ps. p < length fb \<and> p < length word \<and> p < length guess"
  shows "green_ok word guess fb ps = Some (\<forall>pos\<in>set ps. fb ! pos = G \<longrightarrow> word ! pos = guess ! pos)"
  using assms by (induction ps) auto

lemma yellow_ok_pure:
  assumes "\<forall>p\<in>set ps. p < length fb \<and> p < length word \<and> p < length guess"
  shows "yellow_ok word guess fb ps =
           Some (\<forall>pos\<in>set ps. fb ! pos = Y \<longrightarrow> word ! pos \<noteq> guess ! pos \<and> guess ! pos \<in> set word)"
  using assms by (induction ps) auto

lemma select_chars_pure:
  assumes "\<forall>p\<in>set ps. p < length fb \<and> p < length guess"
  shows "select_chars guess fb P ps = Some (map (\<lambda>p. guess ! p) (filter (\<lambda>p. P (fb ! p)) ps))"
  using assms by (induction ps) auto

lemma gray_ok_pure:
  assumes "5 \<le> length fb" "5 \<le> length guess"
  shows "gray_ok word guess fb cs =
           Some (\<forall>c\<in>set cs. c \<in> set word \<longrightarrow>
                   c \<in> set (map (\<lambda>p. guess ! p) (filter (\<lambda>p. fb ! p = G \<or> fb ! p = Y) [0..<5])))"
proof -
  have sel: "select_chars guess fb (\<lambda>f. f = G \<or> f = Y) [0..<5] =
               Some (map (\<lambda>p. guess ! p) (filter (\<lambda>p. fb ! p = G \<or> fb ! p = Y) [0..<5]))"
    using assms by (intro select_chars_pure) auto
  show ?thesis by (induction cs) (auto simp: sel)
qed

lemma word_valid_pure:
  assumes "5 \<le> length fb" "5 \<le> length guess" "5 \<le> length word"
  shows "word_valid word guess fb = Some (consistent guess fb word)"
proof -
  have r: "\<forall>p\<in>set [0..<5]. p < length fb \<and> p < length word \<and> p < length guess"
    using assms by auto
  have r2: "\<forall>p\<in>set [0..<5]. p < length fb \<and> p < length guess"
    using assms by auto
  show ?thesis
    unfolding word_valid_def green_ok_pure[OF r] yellow_ok_pure[OF r]
      select_chars_pure[OF r2] gray_ok_pure[OF assms(1,2)] consistent_def
    by (auto simp: image_iff) metis+
qed

lemma filter_loop_pure:
  assumes "5 \<le> length fb" "5 \<le> length guess" "\<forall>w\<in>set ws. 5 \<le> length w"
  shows "filter_loop ws guess fb valid = Some (valid @ filter (consistent guess fb) ws)"
  using assms(3)
proof (induction ws arbitrary: valid)
  case Nil then show ?case by simp
next
  case (Cons w ws)
  then show ?case using word_valid_pure[OF assms(1,2), of w] by simp
qed

lemma filter_valid_words_pure:
  assumes "5 \<le> length fb" "5 \<le> length guess" "\<forall>w\<in>set ws. 5 \<le> length w"
  shows "filter_valid_words ws guess fb = Some (filter (consistent guess fb) ws)"
  using filter_loop_pure[OF assms, of "[]"] by (simp add: filter_valid_words_def)

lemma target_consistent:
  assumes "length guess = 5" "length target = 5"
  shows "consistent guess (get_feedback guess target) target"
  unfolding consistent_def
proof (intro conjI allI impI)
  fix pos :: nat assume "pos < 5" "get_feedback guess target ! pos = G"
  then show "target ! pos = guess ! pos" using assms by (simp add: get_feedback_G)
next
  fix pos :: nat assume p: "pos < 5" "get_feedback guess target ! pos = Y"
  then have "get_feedback guess target ! pos \<noteq> G" by simp
  then show "target ! pos \<noteq> guess ! pos" using assms p(1) by (auto simp: get_feedback_G)
  show "guess ! pos \<in> set target" using get_feedback_Y[of pos guess target] p assms by simp
next
  fix pos :: nat
  assume "pos < 5" "get_feedback guess target ! pos = B" "guess ! pos \<in> set target"
  then show "\<exists>p<5. (get_feedback guess target ! p = G \<or> get_feedback guess target ! p = Y)
                    \<and> guess ! p = guess ! pos"
    using get_feedback_B[of pos guess target] assms by auto
qed

section \<open>Claims about get_feedback and filter_valid_words\<close>

lemma zip_nth_upt:
  "length xs = length ys \<Longrightarrow> map (\<lambda>i. (xs ! i, ys ! i)) [0..<length xs] = zip xs ys"
  by (intro nth_equalityI) simp_all

lemma count_positions:
  assumes "length xs = length ys"
  shows "length (filter (\<lambda>i. P (xs ! i) (ys ! i)) [0..<length xs])
           = length (filter (\<lambda>(x, y). P x y) (zip xs ys))"
proof -
  have "length (filter (\<lambda>(x, y). P x y) (zip xs ys))
      = length (filter (\<lambda>(x, y). P x y) (map (\<lambda>i. (xs ! i, ys ! i)) [0..<length xs]))"
    by (simp only: zip_nth_upt[OF assms])
  also have "\<dots> = length (filter (\<lambda>i. P (xs ! i) (ys ! i)) [0..<length xs])"
    by (simp add: filter_map comp_def)
  finally show ?thesis by simp
qed

lemma correct_marks_count:
  "length (filter (\<lambda>(m, a). m = Correct \<and> a = L) (zip (first_pass_marks guess target) guess))
     = count (mset (map fst (filter (\<lambda>(g, t). g = t) (zip guess target)))) L"
  unfolding first_pass_marks_def
proof (induction guess arbitrary: target)
  case Nil then show ?case by simp
next
  case (Cons g gs) then show ?case by (cases target) auto
qed

lemma marked_le_target:
  assumes "length guess = length target"
  shows "length (filter (\<lambda>(c, a). (c = G \<or> c = Y) \<and> a = L) (zip (get_feedback guess target) guess))
           \<le> count_list target L"
proof -
  let ?ms = "zip (first_pass_marks guess target) guess"
  let ?R = "first_pass_remaining guess target"
  let ?rs = "second_pass_marks ?R ?ms"
  let ?matched = "map fst (filter (\<lambda>(g, t). g = t) (zip guess target))"
  have snd_ms: "map snd ?ms = guess" using assms by (simp add: first_pass_marks_def)
  have "filter (\<lambda>(c, a). (c = G \<or> c = Y) \<and> a = L) (zip (map mark_char ?rs) guess)
      = map (\<lambda>(r, a). (mark_char r, a)) (filter (\<lambda>(r, a). r \<noteq> Absent \<and> a = L) (zip ?rs guess))"
    (is "?lhs = ?rhs")
  proof -
    have "(m = Correct \<or> m = Present) \<longleftrightarrow> m \<noteq> Absent" for m by (cases m) simp_all
    then show ?thesis by (simp add: zip_map1 filter_map comp_def case_prod_unfold)
  qed
  then have "length (filter (\<lambda>(c, a). (c = G \<or> c = Y) \<and> a = L) (zip (get_feedback guess target) guess))
      = length (filter (\<lambda>(r, a). r \<noteq> Absent \<and> a = L) (zip ?rs (map snd ?ms)))"
    by (simp add: get_feedback_refines feedback_spec_def snd_ms)
  also have "\<dots> \<le> count ?R L + length (filter (\<lambda>(m, a). m = Correct \<and> a = L) ?ms)"
    by (rule second_pass_marks_hits)
  also have "\<dots> = count (mset target - mset ?matched) L + count (mset ?matched) L"
    by (simp add: correct_marks_count first_pass_remaining_def)
  also have "\<dots> = count (mset target) L"
    using matched_subset[of guess target] by (simp add: mset_subset_eq_count)
  finally show ?thesis by (simp add: count_mset)
qed

text \<open>
  Claim C5. \<open>get_feedback\<close> is the two-pass algorithm: on every guess and target it
  returns the marks that the specification's two passes produce (Correct exactly at the
  positions where guess and target agree, with the matched letters taken out of the
  counter of target letters; then Present at each remaining position whose letter still has
  a copy left in the counter, which is used up, and Absent otherwise), written as the
  characters G, Y, B. In particular the guess (11,4,0,21,4) against the target
  (15,11,0,2,4) gets Y, B, G, B, G.
\<close>

theorem get_feedback_two_pass:
  "get_feedback guess target = map mark_char (feedback_spec guess target)
   \<and> get_feedback [11,4,0,21,4] [15,11,0,2,4] = [Y, B, G, B, G]"
proof
  show "get_feedback guess target = map mark_char (feedback_spec guess target)"
    by (rule get_feedback_refines)
  show "get_feedback [11,4,0,21,4] [15,11,0,2,4] = [Y, B, G, B, G]"
    by (simp add: get_feedback_def first_pass_step_def second_pass_step_def Counter_def counter_get_def)
qed

theorem get_feedback_two_pass_witness:
  "get_feedback [0, 0, 1, 2, 0] [1, 0, 0, 3, 4] = map mark_char [Present, Correct, Present, Absent, Absent]"
  using get_feedback_two_pass[of "[0, 0, 1, 2, 0]" "[1, 0, 0, 3, 4]"]
  by (simp add: feedback_spec_def first_pass_marks_def first_pass_remaining_def)

text \<open>
  Claim C6. For 5-letter guess and target and every letter \<open>L\<close>, the number of positions
  that \<open>get_feedback\<close> marks G or Y and where the guess has \<open>L\<close> is at most the number of
  occurrences of \<open>L\<close> in the target.
\<close>

theorem present_correct_bounded:
  assumes "length guess = 5" "length target = 5"
  shows "length (filter (\<lambda>i. (get_feedback guess target ! i = G \<or> get_feedback guess target ! i = Y)
                              \<and> guess ! i = L) [0..<5])
           \<le> count_list target L"
proof -
  have len: "length (get_feedback guess target) = length guess"
    using assms by (simp add: length_get_feedback)
  have "length (filter (\<lambda>i. (get_feedback guess target ! i = G \<or> get_feedback guess target ! i = Y)
                              \<and> guess ! i = L) [0..<length (get_feedback guess target)])
        = length (filter (\<lambda>(c, a). (c = G \<or> c = Y) \<and> a = L) (zip (get_feedback guess target) guess))"
    by (rule count_positions[OF len])
  then show ?thesis using marked_le_target[of guess target L] assms len by simp
qed

theorem present_correct_bounded_witness:
  "length (filter (\<lambda>i. (get_feedback [11,4,0,21,4] [15,11,0,2,4] ! i = G
                        \<or> get_feedback [11,4,0,21,4] [15,11,0,2,4] ! i = Y)
                        \<and> [11,4,0,21,4] ! i = (4::int)) [0..<5])
     \<le> count_list [15,11,0,2,4] 4"
  using present_correct_bounded[of "[11,4,0,21,4]" "[15,11,0,2,4]" 4] by simp

text \<open>
  Claim C10. For 5-letter words, \<open>get_feedback guess target\<close> is the all-Correct list
  \<open>['G'] * 5\<close> exactly when the guess equals the target.
\<close>

theorem all_correct_iff_equal:
  assumes "length guess = 5" "length target = 5"
  shows "get_feedback guess target = replicate 5 G \<longleftrightarrow> guess = target"
proof
  assume a: "get_feedback guess target = replicate 5 G"
  show "guess = target"
  proof (rule nth_equalityI)
    show "length guess = length target" using assms by simp
  next
    fix i assume i: "i < length guess"
    then have "get_feedback guess target ! i = G" using a assms by simp
    then show "guess ! i = target ! i" using i assms by (simp add: get_feedback_G)
  qed
next
  assume e: "guess = target"
  show "get_feedback guess target = replicate 5 G"
  proof (rule nth_equalityI)
    show "length (get_feedback guess target) = length (replicate 5 G)"
      using assms by (simp add: length_get_feedback)
  next
    fix i assume "i < length (get_feedback guess target)"
    then have i: "i < 5" using assms by (simp add: length_get_feedback)
    then have "get_feedback guess target ! i = G" using e assms by (simp add: get_feedback_G)
    then show "get_feedback guess target ! i = replicate 5 G ! i" using i by simp
  qed
qed

theorem all_correct_iff_equal_witness:
  "get_feedback [19,17,0,2,4] [19,17,0,2,4] = replicate 5 G
   \<and> get_feedback [2,17,0,13,4] [19,17,0,2,4] \<noteq> replicate 5 G"
  using all_correct_iff_equal[of "[19,17,0,2,4]" "[19,17,0,2,4]"]
        all_correct_iff_equal[of "[2,17,0,13,4]" "[19,17,0,2,4]"] by simp

text \<open>
  Claim C1. Soundness of filtering: for a list of 5-letter candidates that contains the
  5-letter target, filtering with a 5-letter guess and the feedback \<open>get_feedback\<close> gives
  for that guess against the target returns normally and keeps the target, whatever
  duplicate letters the guess has.
\<close>

theorem filter_keeps_target:
  assumes "length guess = 5" "length target = 5"
    and "\<forall>w\<in>set candidates. length w = 5" "target \<in> set candidates"
  shows "\<exists>valid. filter_valid_words candidates guess (get_feedback guess target) = Some valid
                 \<and> target \<in> set valid"
proof -
  have "filter_valid_words candidates guess (get_feedback guess target)
          = Some (filter (consistent guess (get_feedback guess target)) candidates)"
    using assms by (intro filter_valid_words_pure) (simp_all add: length_get_feedback)
  then show ?thesis using target_consistent[OF assms(1,2)] assms(4) by simp
qed

theorem filter_keeps_target_witness:
  "\<exists>valid. filter_valid_words [[2,17,0,13,4],[18,11,0,19,4],[8,17,0,19,4]] [11,4,4,17,4]
              (get_feedback [11,4,4,17,4] [8,17,0,19,4]) = Some valid
            \<and> [8,17,0,19,4] \<in> set valid"
  using filter_keeps_target[of "[11,4,4,17,4]" "[8,17,0,19,4]" "[[2,17,0,13,4],[18,11,0,19,4],[8,17,0,19,4]]"]
  by simp

section \<open>Properties of the loop of solve_wordle\<close>

subsection \<open>The three ways a pass of the loop body ends\<close>

lemma attempt_infeasible:
  assumes "prepare s = Some m" "fst (solver m) \<noteq> OPTIMAL" "fst (solver m) \<noteq> FEASIBLE"
  shows "attempt solver t s = Some (Return (s\<lparr>model := m\<rparr>))"
  using assms by (simp add: attempt_def)

lemma attempt_cases [consumes 1, case_names infeasible solved continue]:
  assumes "attempt solver t s = Some f"
  obtains
    (infeasible) m where "prepare s = Some m" "fst (solver m) \<noteq> OPTIMAL" "fst (solver m) \<noteq> FEASIBLE"
      "f = Return (s\<lparr>model := m\<rparr>)"
  | (solved) m guess remaining guess_str where "prepare s = Some m"
      "fst (solver m) = OPTIMAL \<or> fst (solver m) = FEASIBLE"
      "guess = map (snd (solver m)) [0..<5]"
      "list_remove (current s) guess = Some remaining" "decode guess = Some guess_str"
      "get_feedback guess t = replicate 5 G"
      "f = Return (s\<lparr>heap := (heap s)(valid_words s := remaining), model := m,
                     response := record_guess guess_str (length remaining) (get_feedback guess t) (response s)\<rparr>)"
  | (continue) m guess remaining guess_str filtered m' where "prepare s = Some m"
      "fst (solver m) = OPTIMAL \<or> fst (solver m) = FEASIBLE"
      "guess = map (snd (solver m)) [0..<5]"
      "list_remove (current s) guess = Some remaining" "decode guess = Some guess_str"
      "get_feedback guess t \<noteq> replicate 5 G"
      "filter_valid_words remaining guess (get_feedback guess t) = Some filtered"
      "update_model m guess (get_feedback guess t) = Some m'"
      "f = Continue (s\<lparr>response := record_guess guess_str (length remaining) (get_feedback guess t) (response s),
                       heap := (heap s)(valid_words s := remaining, fresh s := filtered),
                       valid_words := fresh s, fresh := Suc (fresh s), model := m'\<rparr>)"
proof -
  from assms obtain m where m: "prepare s = Some m"
    by (auto simp: attempt_def split: bind_splits)
  show ?thesis
  proof (cases "fst (solver m) = OPTIMAL \<or> fst (solver m) = FEASIBLE")
    case False
    then show ?thesis using assms m infeasible by (simp add: attempt_def)
  next
    case True
    let ?g = "map (snd (solver m)) [0..<5]"
    from assms m True obtain remaining guess_str where
      r: "list_remove (current s) ?g = Some remaining" and d: "decode ?g = Some guess_str"
      by (auto simp: attempt_def Let_def split: bind_splits)
    show ?thesis
    proof (cases "get_feedback ?g t = replicate 5 G")
      case eq: True
      have "f = Return (s\<lparr>heap := (heap s)(valid_words s := remaining), model := m,
                     response := record_guess guess_str (length remaining) (get_feedback ?g t) (response s)\<rparr>)"
        using assms m True r d eq by (simp add: attempt_def Let_def)
      then show ?thesis using solved[OF m True refl r d eq] by blast
    next
      case neq: False
      from assms m True r d neq obtain filtered m' where
        fl: "filter_valid_words remaining ?g (get_feedback ?g t) = Some filtered" and
        um: "update_model m ?g (get_feedback ?g t) = Some m'"
        by (auto simp: attempt_def Let_def split: bind_splits)
      have "f = Continue (s\<lparr>response := record_guess guess_str (length remaining) (get_feedback ?g t) (response s),
                       heap := (heap s)(valid_words s := remaining, fresh s := filtered),
                       valid_words := fresh s, fresh := Suc (fresh s), model := m'\<rparr>)"
        using assms m True r d neq fl um by (auto simp: attempt_def Let_def)
      then show ?thesis using continue[OF m True refl r d neq fl um] by blast
    qed
  qed
qed

subsection \<open>The model handed to the solver, and what a sound solver returns\<close>

lemma prepare_Some:
  assumes "\<forall>w\<in>set (current s). length w = 5"
  shows "prepare s = Some \<lparr>constraints = constraints (model s) @ [AllowedAssignments (current s), Channeling],
           objective = Some (heuristic (positional_freq s) (letter_frequency s))\<rparr>"
  using assms by (simp add: prepare_def add_allowed_assignments_def update_heuristic_def list_all_iff)

lemma prepare_constraints:
  assumes "prepare s = Some m"
  shows "constraints m = constraints (model s) @ [AllowedAssignments (current s), Channeling]"
    and "objective m = Some (heuristic (positional_freq s) (letter_frequency s))"
  using assms
  by (auto simp: prepare_def add_allowed_assignments_def update_heuristic_def split: bind_splits if_splits)

lemma satisfies_guess:
  assumes "sound solver" "fst (solver m) = OPTIMAL \<or> fst (solver m) = FEASIBLE"
  shows "satisfies m (map (snd (solver m)) [0..<5])"
  using assms unfolding sound_def by blast

lemma satisfiesD:
  assumes "satisfies m w"
  shows "length w = 5" "\<forall>c\<in>set w. 0 \<le> c \<and> c \<le> 25" "\<forall>c\<in>set (constraints m). sat c w"
  using assms by (simp_all add: satisfies_def list_all_iff)

lemma chr_letter: "0 \<le> c \<Longrightarrow> c \<le> 25 \<Longrightarrow> chr (c + ord CHR ''a'') = Some (char_of (c + 97))"
  by (simp add: chr_def ord_def)

lemma those_map_Some: "(\<forall>x\<in>set xs. f x = Some (g x)) \<Longrightarrow> those (map f xs) = Some (map g xs)"
  by (induction xs) simp_all

lemma decode_letters:
  assumes "\<forall>c\<in>set w. 0 \<le> c \<and> c \<le> 25"
  shows "decode w = Some (map (\<lambda>c. char_of (c + 97)) w)"
  unfolding decode_def using assms by (intro those_map_Some) (simp add: chr_letter)

lemma char_of_letter_inj:
  assumes "0 \<le> a" "a \<le> 25" "0 \<le> b" "b \<le> 25" "char_of (a + 97 :: int) = char_of (b + 97 :: int)"
  shows "a = b"
proof -
  have "of_char (char_of (a + 97 :: int)) = (of_char (char_of (b + 97 :: int)) :: int)"
    using assms(5) by simp
  then have "(a + 97) mod 256 = (b + 97) mod 256" by simp
  then show ?thesis using assms(1-4) by simp
qed

lemma decode_differs:
  assumes "\<forall>c\<in>set w. 0 \<le> c \<and> c \<le> 25" "\<forall>c\<in>set v. 0 \<le> c \<and> c \<le> 25"
    and "length w = length v" "p < length w" "w ! p \<noteq> v ! p"
  shows "decode w \<noteq> decode v"
proof
  assume "decode w = decode v"
  then have "map (\<lambda>c. char_of (c + 97)) w = (map (\<lambda>c. char_of (c + 97)) v :: string)"
    using assms(1,2) by (simp add: decode_letters)
  then have "map (\<lambda>c. char_of (c + 97)) w ! p = (map (\<lambda>c. char_of (c + 97)) v ! p :: char)" by simp
  then have "char_of (w ! p + 97) = (char_of (v ! p + 97) :: char)" using assms(3,4) by simp
  moreover have "0 \<le> w ! p \<and> w ! p \<le> 25" "0 \<le> v ! p \<and> v ! p \<le> 25"
    using assms(1-4) by (simp_all add: all_set_conv_all_nth)
  ultimately show False using assms(5) char_of_letter_inj by blast
qed

subsection \<open>update_model\<close>

lemma dict_get_update [simp]:
  "dict_get (AList.update k v d) j x = (if j = k then v else dict_get d j x)"
  by (simp add: dict_get_def update_conv')

lemma dict_get_mem:
  assumes "p \<in> set (dict_get d c [])"
  shows "\<exists>ps. (c, ps) \<in> set d \<and> p \<in> set ps"
proof (cases "map_of d c")
  case None then show ?thesis using assms by (simp add: dict_get_def)
next
  case (Some ps)
  then show ?thesis using assms by (auto simp: dict_get_def dest: map_of_SomeD)
qed

lemma gray_constraints_mem:
  assumes "p \<in> set (dict_get gp c [])"
  shows "VarNeq p c \<in> set (gray_constraints gp)"
proof -
  from dict_get_mem[OF assms] obtain ps where "(c, ps) \<in> set gp" "p \<in> set ps" by blast
  then show ?thesis by (force simp: gray_constraints_def)
qed

lemma scan_feedback_in_range:
  "scan_feedback guess fb ps acc = Some r \<Longrightarrow> \<forall>p\<in>set ps. p < length fb \<and> p < length guess"
proof (induction ps arbitrary: acc)
  case Nil then show ?case by simp
next
  case (Cons p ps)
  obtain cs lc gp where acc: "acc = (cs, lc, gp)" by (cases acc)
  from Cons.prems acc have "p < length guess" "p < length fb"
    by (auto simp: index_def split: bind_splits if_splits)
  moreover from Cons.prems acc obtain acc' where "scan_feedback guess fb ps acc' = Some r"
    by (auto simp: index_def split: bind_splits if_splits)
  ultimately show ?case using Cons.IH by auto
qed

lemma scan_feedback_result:
  assumes "\<forall>p\<in>set ps. p < length fb \<and> p < length guess"
  shows "\<exists>cs' lc' gp'. scan_feedback guess fb ps (cs, lc, gp) = Some (cs', lc', gp')
           \<and> set cs \<subseteq> set cs'
           \<and> (\<forall>p\<in>set ps. fb ! p = Y \<longrightarrow> VarNeq p (guess ! p) \<in> set cs')
           \<and> (\<forall>c q. q \<in> set (dict_get gp c []) \<longrightarrow> q \<in> set (dict_get gp' c []))
           \<and> (\<forall>p\<in>set ps. fb ! p = B \<longrightarrow> p \<in> set (dict_get gp' (guess ! p) []))"
  using assms
proof (induction ps arbitrary: cs lc gp)
  case Nil then show ?case by simp
next
  case (Cons p ps)
  have rng: "\<forall>p\<in>set ps. p < length fb \<and> p < length guess" using Cons.prems by simp
  have p: "p < length fb" "p < length guess" using Cons.prems by simp_all
  consider (g) "fb ! p = G" | (y) "fb ! p = Y" | (b) "fb ! p = B"
    | (o) "fb ! p \<noteq> G" "fb ! p \<noteq> Y" "fb ! p \<noteq> B" by blast
  then show ?case
  proof cases
    case g
    from Cons.IH[OF rng, of "cs @ [VarEq p (guess ! p)]" "dict_incr (guess ! p) lc" gp]
    show ?thesis using g p by auto
  next
    case y
    from Cons.IH[OF rng, of "cs @ [VarNeq p (guess ! p)]" "dict_incr (guess ! p) lc" gp]
    show ?thesis using y p by auto
  next
    case b
    let ?gp = "AList.update (guess ! p) (dict_get gp (guess ! p) [] @ [p]) gp"
    from Cons.IH[OF rng, of cs lc ?gp] obtain cs' lc' gp' where
      r: "scan_feedback guess fb ps (cs, lc, ?gp) = Some (cs', lc', gp')" "set cs \<subseteq> set cs'"
         "\<forall>p\<in>set ps. fb ! p = Y \<longrightarrow> VarNeq p (guess ! p) \<in> set cs'"
         "\<forall>c q. q \<in> set (dict_get ?gp c []) \<longrightarrow> q \<in> set (dict_get gp' c [])"
         "\<forall>p\<in>set ps. fb ! p = B \<longrightarrow> p \<in> set (dict_get gp' (guess ! p) [])"
      by blast
    have here: "p \<in> set (dict_get gp' (guess ! p) [])" using r(4) by simp
    have keep: "\<forall>c q. q \<in> set (dict_get gp c []) \<longrightarrow> q \<in> set (dict_get gp' c [])"
    proof (intro allI impI)
      fix c q assume "q \<in> set (dict_get gp c [])"
      then have "q \<in> set (dict_get ?gp c [])" by auto
      then show "q \<in> set (dict_get gp' c [])" using r(4) by blast
    qed
    show ?thesis using b p r(1,2,3,5) here keep by auto
  next
    case o
    from Cons.IH[OF rng, of cs lc gp]
    show ?thesis using o p by auto
  qed
qed

lemma update_model_Some:
  assumes "5 \<le> length guess" "5 \<le> length fb"
  shows "\<exists>m'. update_model m guess fb = Some m'"
proof -
  have "\<forall>p\<in>set [0..<5]. p < length fb \<and> p < length guess" using assms by auto
  from scan_feedback_result[OF this, of "constraints m" "[]" "[]"]
  show ?thesis by (auto simp: update_model_def)
qed

lemma update_model_in_range:
  assumes "update_model m guess fb = Some m'"
  shows "5 \<le> length fb"
proof -
  from assms obtain r where "scan_feedback guess fb [0..<5] (constraints m, [], []) = Some r"
    by (auto simp: update_model_def split: bind_splits)
  from scan_feedback_in_range[OF this] have "4 < length fb" by auto
  then show ?thesis by simp
qed

lemma update_model_constraints:
  assumes "update_model m guess fb = Some m'"
  shows "set (constraints m) \<subseteq> set (constraints m')"
    and "p < 5 \<Longrightarrow> fb ! p = Y \<or> fb ! p = B \<Longrightarrow> VarNeq p (guess ! p) \<in> set (constraints m')"
proof -
  from assms obtain r where s: "scan_feedback guess fb [0..<5] (constraints m, [], []) = Some r"
    by (auto simp: update_model_def split: bind_splits)
  from scan_feedback_result[OF scan_feedback_in_range[OF s], of "constraints m" "[]" "[]"] s
  obtain cs' lc' gp' where
    r: "r = (cs', lc', gp')" "set (constraints m) \<subseteq> set cs'"
       "\<forall>p\<in>set [0..<5]. fb ! p = Y \<longrightarrow> VarNeq p (guess ! p) \<in> set cs'"
       "\<forall>p\<in>set [0..<5]. fb ! p = B \<longrightarrow> p \<in> set (dict_get gp' (guess ! p) [])"
    by auto
  have m': "constraints m' = cs' @ gray_constraints gp' @ count_constraints lc' gp'"
    using assms s r(1) by (auto simp: update_model_def)
  show "set (constraints m) \<subseteq> set (constraints m')" using r(2) m' by auto
  show "VarNeq p (guess ! p) \<in> set (constraints m')" if "p < 5" "fb ! p = Y \<or> fb ! p = B"
  proof -
    from that(2) show ?thesis
    proof
      assume "fb ! p = Y"
      then show ?thesis using r(3) that(1) m' by auto
    next
      assume "fb ! p = B"
      then have "p \<in> set (dict_get gp' (guess ! p) [])" using r(4) that(1) by auto
      from gray_constraints_mem[OF this] show ?thesis using m' by simp
    qed
  qed
qed

subsection \<open>No word comes back: the invariant\<close>

lemma record_guess_simps [simp]:
  "guesses (record_guess gs n fb r) = guesses r @ [gs]"
  "nb_possible_words (record_guess gs n fb r) = nb_possible_words r @ [n]"
  "feedback (record_guess gs n fb r) = feedback r @ [fb]"
  by (simp_all add: record_guess_def)

lemma not_all_green:
  assumes "length fb = 5" "set fb \<subseteq> {G, Y, B}" "fb \<noteq> replicate 5 G"
  shows "\<exists>p<5. fb ! p = Y \<or> fb ! p = B"
proof (rule ccontr)
  assume n: "\<not> ?thesis"
  have "fb = replicate 5 G"
  proof (rule nth_equalityI)
    show "length fb = length (replicate 5 G)" using assms(1) by simp
  next
    fix i assume i: "i < length fb"
    then have "fb ! i \<in> {G, Y, B}" using assms(2) by (meson nth_mem subsetD)
    moreover have "fb ! i \<noteq> Y" "fb ! i \<noteq> B" using n i assms(1) by auto
    ultimately show "fb ! i = replicate 5 G ! i" using i assms(1) by simp
  qed
  then show False using assms(3) by simp
qed

lemma new_guess_fresh:
  assumes ex: "guessed_excluded s" and pm: "prepare s = Some m" and sat: "satisfies m guess"
    and dec: "decode guess = Some guess_str"
  shows "guess_str \<notin> set (guesses (response s))"
proof
  assume "guess_str \<in> set (guesses (response s))"
  with ex obtain w p where w: "decode w = Some guess_str" "length w = 5"
      "\<forall>c\<in>set w. 0 \<le> c \<and> c \<le> 25" "p < 5" "VarNeq p (w ! p) \<in> set (constraints (model s))"
    unfolding guessed_excluded_def by blast
  have "VarNeq p (w ! p) \<in> set (constraints m)"
    using w(5) prepare_constraints(1)[OF pm] by simp
  then have "sat (VarNeq p (w ! p)) guess" using satisfiesD(3)[OF sat] by blast
  then have ne: "guess ! p \<noteq> w ! p" by simp
  have "decode guess \<noteq> decode w"
    using decode_differs[of guess w p] satisfiesD(1,2)[OF sat] w(2,3,4) ne by simp
  then show False using w(1) dec by simp
qed

lemma attempt_distinct:
  assumes snd: "sound solver" and at: "attempt solver t s = Some f"
    and d: "distinct (guesses (response s))" and ex: "guessed_excluded s"
  shows "distinct (guesses (response (flow_state f)))"
    and "\<And>s'. f = Continue s' \<Longrightarrow> guessed_excluded s'"
proof -
  show "distinct (guesses (response (flow_state f)))"
    using at
  proof (cases rule: attempt_cases)
    case (infeasible m)
    then show ?thesis using d by simp
  next
    case (solved m guess remaining guess_str)
    have "satisfies m guess" using satisfies_guess[OF snd solved(2)] solved(3) by simp
    from new_guess_fresh[OF ex solved(1) this solved(5)]
    show ?thesis using solved(7) d by simp
  next
    case (continue m guess remaining guess_str filtered m')
    have "satisfies m guess" using satisfies_guess[OF snd continue(2)] continue(3) by simp
    from new_guess_fresh[OF ex continue(1) this continue(5)]
    show ?thesis using continue(9) d by simp
  qed
next
  fix s' assume f: "f = Continue s'"
  from at show "guessed_excluded s'"
  proof (cases rule: attempt_cases)
    case (infeasible m)
    then show ?thesis using f by simp
  next
    case (solved m guess remaining guess_str)
    then show ?thesis using f by simp
  next
    case (continue m guess remaining guess_str filtered m')
    let ?fb = "get_feedback guess t"
    have sg: "satisfies m guess" using satisfies_guess[OF snd continue(2)] continue(3) by simp
    have s': "guesses (response s') = guesses (response s) @ [guess_str]" "model s' = m'"
      using continue(9) f by simp_all
    have sub: "set (constraints (model s)) \<subseteq> set (constraints m')"
      using prepare_constraints(1)[OF continue(1)] update_model_constraints(1)[OF continue(8)]
      by auto
    have len: "length ?fb = 5"
      using update_model_in_range[OF continue(8)] satisfiesD(1)[OF sg]
      by (simp add: length_get_feedback)
    from not_all_green[OF len get_feedback_alphabet continue(6)]
    obtain p where p: "p < 5" "?fb ! p = Y \<or> ?fb ! p = B" by blast
    have new: "VarNeq p (guess ! p) \<in> set (constraints m')"
      using update_model_constraints(2)[OF continue(8) p] .
    show ?thesis
      unfolding guessed_excluded_def s'
    proof
      fix gs assume "gs \<in> set (guesses (response s) @ [guess_str])"
      then consider "gs \<in> set (guesses (response s))" | "gs = guess_str" by auto
      then show "\<exists>w p. decode w = Some gs \<and> length w = 5 \<and> (\<forall>c\<in>set w. 0 \<le> c \<and> c \<le> 25) \<and> p < 5 \<and>
                    VarNeq p (w ! p) \<in> set (constraints m')"
      proof cases
        case 1
        with ex obtain w q where "decode w = Some gs" "length w = 5"
          "\<forall>c\<in>set w. 0 \<le> c \<and> c \<le> 25" "q < 5" "VarNeq q (w ! q) \<in> set (constraints (model s))"
          unfolding guessed_excluded_def by blast
        then show ?thesis using sub by blast
      next
        case 2
        then show ?thesis
          using continue(5) satisfiesD(1,2)[OF sg] p(1) new by blast
      qed
    qed
  qed
qed

lemma attempts_distinct:
  assumes "sound solver" "attempts solver t n s = Some s'"
    and "distinct (guesses (response s))" "guessed_excluded s"
  shows "distinct (guesses (response s'))"
  using assms(2-)
proof (induction n arbitrary: s)
  case 0 then show ?case by simp
next
  case (Suc n)
  from Suc.prems(1) obtain f where f: "attempt solver t s = Some f"
    by (auto split: option.splits)
  note step = attempt_distinct[OF assms(1) f Suc.prems(2,3)]
  show ?case
  proof (cases f)
    case (Return r)
    then show ?thesis using Suc.prems(1) f step(1) by simp
  next
    case (Continue c)
    then have "attempts solver t n c = Some s'" using Suc.prems(1) f by simp
    from Suc.IH[OF this] step Continue show ?thesis by simp
  qed
qed

lemma start_response:
  assumes "start words = Some s0"
  shows "response s0 = \<lparr>guesses = [], feedback = [], nb_possible_words = []\<rparr>"
    and "model s0 = \<lparr>constraints = [], objective = None\<rparr>"
    and "current s0 = words" and "heap s0 0 = words" and "valid_words s0 = 0"
    and "positional_frequencies words = Some (positional_freq s0)"
    and "letter_frequency s0 = letter_frequencies words"
  using assms by (auto simp: start_def current_def split: bind_splits)

subsection \<open>The reference solver, the length of the history, normal return\<close>

lemma first_best_mem: "first_best f b ws \<in> set (b # ws)"
  by (induction ws arbitrary: b) auto

lemma map_nth_5: "length w = 5 \<Longrightarrow> map (\<lambda>i. w ! i) [0..<5] = w"
  using map_nth[of w] by simp

lemma exhaustive_solver_sound: "sound exhaustive_solver"
  unfolding sound_def
proof (intro allI impI)
  fix m
  assume feas: "fst (exhaustive_solver m) = OPTIMAL \<or> fst (exhaustive_solver m) = FEASIBLE"
  show "satisfies m (map (snd (exhaustive_solver m)) [0..<5])"
  proof (cases "filter (satisfies m) (table_tuples (constraints m))")
    case Nil
    then show ?thesis using feas by (simp add: exhaustive_solver_def)
  next
    case (Cons w ws)
    let ?b = "first_best (objective_value (objective m)) w ws"
    have "?b \<in> set (filter (satisfies m) (table_tuples (constraints m)))"
      using first_best_mem[of _ w ws] Cons by simp
    then have sb: "satisfies m ?b" by simp
    then have "map (\<lambda>i. ?b ! i) [0..<5] = ?b" by (intro map_nth_5) (simp add: satisfies_def)
    then show ?thesis using sb Cons by (simp add: exhaustive_solver_def)
  qed
qed

lemma attempt_length:
  assumes "attempt solver t s = Some f"
  shows "length (guesses (response (flow_state f))) \<le> Suc (length (guesses (response s)))"
  using assms by (cases rule: attempt_cases) simp_all

lemma attempts_length:
  "attempts solver t n s = Some s' \<Longrightarrow>
     length (guesses (response s')) \<le> length (guesses (response s)) + n"
proof (induction n arbitrary: s)
  case 0 then show ?case by simp
next
  case (Suc n)
  from Suc.prems obtain f where f: "attempt solver t s = Some f"
    by (auto split: option.splits)
  show ?case
  proof (cases f)
    case (Return r)
    then show ?thesis using Suc.prems f attempt_length[OF f] by simp
  next
    case (Continue c)
    then have "attempts solver t n c = Some s'" using Suc.prems f by simp
    from Suc.IH[OF this] attempt_length[OF f] Continue show ?thesis by simp
  qed
qed

lemma solve_wordle_guesses_le:
  assumes "solve_wordle solver words target_word max_attempts = Some (r, l)"
  shows "length (guesses r) \<le> nat max_attempts"
proof -
  from assms obtain s0 s where s0: "start words = Some s0"
    and s: "attempts solver (encode target_word) (nat max_attempts) s0 = Some s"
    and r: "r = response s"
    by (auto simp: solve_wordle_def split: bind_splits)
  show ?thesis using attempts_length[OF s] start_response(1)[OF s0] r by simp
qed

lemma attempt_returns:
  assumes snd: "sound solver" and wf: "\<forall>w\<in>set (current s). length w = 5" and t: "length t = 5"
  shows "\<exists>f. attempt solver t s = Some f \<and> (\<forall>s'. f = Continue s' \<longrightarrow> (\<forall>w\<in>set (current s'). length w = 5))"
proof -
  let ?m = "\<lparr>constraints = constraints (model s) @ [AllowedAssignments (current s), Channeling],
           objective = Some (heuristic (positional_freq s) (letter_frequency s))\<rparr>"
  have pm: "prepare s = Some ?m" by (rule prepare_Some[OF wf])
  show ?thesis
  proof (cases "fst (solver ?m) = OPTIMAL \<or> fst (solver ?m) = FEASIBLE")
    case False
    then show ?thesis using attempt_infeasible[OF pm] by simp
  next
    case True
    let ?g = "map (snd (solver ?m)) [0..<5]"
    let ?fb = "get_feedback ?g t"
    let ?rem = "remove1 ?g (current s)"
    have sg: "satisfies ?m ?g" by (rule satisfies_guess[OF snd True])
    have "sat (AllowedAssignments (current s)) ?g" using satisfiesD(3)[OF sg] by simp
    then have mem: "?g \<in> set (current s)" by simp
    then have rm: "list_remove (current s) ?g = Some ?rem" by (simp add: list_remove_def)
    have dec: "decode ?g = Some (map (\<lambda>c. char_of (c + 97)) ?g)"
      by (rule decode_letters[OF satisfiesD(2)[OF sg]])
    have lenfb: "length ?fb = 5" using t by (simp add: length_get_feedback)
    show ?thesis
    proof (cases "?fb = replicate 5 G")
      case eq: True
      then show ?thesis using pm True rm dec by (simp add: attempt_def Let_def)
    next
      case neq: False
      have wfr: "\<forall>w\<in>set ?rem. 5 \<le> length w" using wf set_remove1_subset[of ?g "current s"] by auto
      have fl: "filter_valid_words ?rem ?g ?fb = Some (filter (consistent ?g ?fb) ?rem)"
        using lenfb wfr by (intro filter_valid_words_pure) simp_all
      obtain m' where um: "update_model ?m ?g ?fb = Some m'"
        using update_model_Some[of ?g ?fb ?m] lenfb by auto
      have wf': "\<forall>w\<in>set (filter (consistent ?g ?fb) ?rem). length w = 5"
        using wf set_remove1_subset[of ?g "current s"] by auto
      show ?thesis using pm True rm dec neq fl um wf'
        by (simp add: attempt_def Let_def current_def)
    qed
  qed
qed

lemma attempts_returns:
  assumes "sound solver" "length t = 5"
  shows "\<forall>w\<in>set (current s). length w = 5 \<Longrightarrow> \<exists>s'. attempts solver t n s = Some s'"
proof (induction n arbitrary: s)
  case 0 then show ?case by simp
next
  case (Suc n)
  from attempt_returns[OF assms(1) Suc.prems assms(2)] obtain f where
    f: "attempt solver t s = Some f" "\<forall>s'. f = Continue s' \<longrightarrow> (\<forall>w\<in>set (current s'). length w = 5)"
    by blast
  show ?case
  proof (cases f)
    case (Return r) then show ?thesis using f(1) by simp
  next
    case (Continue c)
    with f(2) have "\<forall>w\<in>set (current c). length w = 5" by simp
    from Suc.IH[OF this] show ?thesis using f(1) Continue by simp
  qed
qed

lemma tally_word_Some:
  "\<forall>p\<in>set ps. p < length word \<Longrightarrow> \<exists>pf'. tally_word word ps pf = Some pf'"
  by (induction ps arbitrary: pf) simp_all

lemma tally_words_Some:
  "\<forall>w\<in>set ws. 5 \<le> length w \<Longrightarrow> \<exists>pf'. tally_words ws pf = Some pf'"
proof (induction ws arbitrary: pf)
  case Nil then show ?case by simp
next
  case (Cons w ws)
  have "\<forall>p\<in>set [0..<5]. p < length w" using Cons.prems by auto
  from tally_word_Some[OF this] obtain pf1 where "tally_word w [0..<5] pf = Some pf1" by blast
  moreover from Cons.IH[of pf1] Cons.prems obtain pf2 where "tally_words ws pf1 = Some pf2" by auto
  ultimately show ?case by simp
qed

lemma start_Some:
  assumes "\<forall>w\<in>set words. length w = 5"
  shows "\<exists>s0. start words = Some s0"
proof -
  have "\<forall>w\<in>set words. 5 \<le> length w" using assms by simp
  from tally_words_Some[OF this, of "replicate 5 []"] show ?thesis
    by (auto simp: start_def positional_frequencies_def)
qed

subsection \<open>The frequency tables are loop constants\<close>

lemma attempt_frequencies:
  assumes "attempt solver t s = Some f"
  shows "positional_freq (flow_state f) = positional_freq s
       \<and> letter_frequency (flow_state f) = letter_frequency s"
  using assms by (cases rule: attempt_cases) simp_all

lemma attempts_frequencies:
  "attempts solver t n s = Some s' \<Longrightarrow>
     positional_freq s' = positional_freq s \<and> letter_frequency s' = letter_frequency s"
proof (induction n arbitrary: s)
  case 0 then show ?case by simp
next
  case (Suc n)
  from Suc.prems obtain f where f: "attempt solver t s = Some f"
    by (auto split: option.splits)
  show ?case
  proof (cases f)
    case (Return r)
    then show ?thesis using Suc.prems f attempt_frequencies[OF f] by simp
  next
    case (Continue c)
    then have "attempts solver t n c = Some s'" using Suc.prems f by simp
    from Suc.IH[OF this] attempt_frequencies[OF f] Continue show ?thesis by simp
  qed
qed

subsection \<open>The caller's list\<close>

lemma attempt_caller_list:
  assumes at: "attempt solver t s = Some f" and fr: "0 < fresh s"
    and k: "(guesses (response s) = [] \<and> valid_words s = 0 \<and> heap s 0 = words)
          \<or> (guesses (response s) \<noteq> [] \<and> 0 < valid_words s \<and> (\<exists>g\<in>set words. heap s 0 = remove1 g words))"
  shows "(guesses (response (flow_state f)) = [] \<and> heap (flow_state f) 0 = words)
          \<or> (guesses (response (flow_state f)) \<noteq> [] \<and> (\<exists>g\<in>set words. heap (flow_state f) 0 = remove1 g words))"
    and "\<And>s'. f = Continue s' \<Longrightarrow> 0 < fresh s' \<and> guesses (response s') \<noteq> [] \<and> 0 < valid_words s'"
proof -
  show "(guesses (response (flow_state f)) = [] \<and> heap (flow_state f) 0 = words)
          \<or> (guesses (response (flow_state f)) \<noteq> [] \<and> (\<exists>g\<in>set words. heap (flow_state f) 0 = remove1 g words))"
    using at
  proof (cases rule: attempt_cases)
    case (infeasible m)
    then show ?thesis using k by auto
  next
    case (solved m guess remaining guess_str)
    from solved(4) have g: "guess \<in> set (current s)" "remaining = remove1 guess (current s)"
      by (auto simp: list_remove_def split: if_splits)
    show ?thesis using k
    proof
      assume "guesses (response s) = [] \<and> valid_words s = 0 \<and> heap s 0 = words"
      then show ?thesis using solved(7) g by (auto simp: current_def)
    next
      assume "guesses (response s) \<noteq> [] \<and> 0 < valid_words s \<and> (\<exists>g\<in>set words. heap s 0 = remove1 g words)"
      then show ?thesis using solved(7) by auto
    qed
  next
    case (continue m guess remaining guess_str filtered m')
    from continue(4) have g: "guess \<in> set (current s)" "remaining = remove1 guess (current s)"
      by (auto simp: list_remove_def split: if_splits)
    show ?thesis using k
    proof
      assume "guesses (response s) = [] \<and> valid_words s = 0 \<and> heap s 0 = words"
      then show ?thesis using continue(9) g fr by (auto simp: current_def)
    next
      assume "guesses (response s) \<noteq> [] \<and> 0 < valid_words s \<and> (\<exists>g\<in>set words. heap s 0 = remove1 g words)"
      then show ?thesis using continue(9) fr by auto
    qed
  qed
next
  fix s' assume "f = Continue s'"
  with at show "0 < fresh s' \<and> guesses (response s') \<noteq> [] \<and> 0 < valid_words s'"
    using fr by (cases rule: attempt_cases) auto
qed

lemma attempts_caller_list:
  assumes "attempts solver t n s = Some s'" "0 < fresh s"
    and "(guesses (response s) = [] \<and> valid_words s = 0 \<and> heap s 0 = words)
          \<or> (guesses (response s) \<noteq> [] \<and> 0 < valid_words s \<and> (\<exists>g\<in>set words. heap s 0 = remove1 g words))"
  shows "(guesses (response s') = [] \<and> heap s' 0 = words)
          \<or> (guesses (response s') \<noteq> [] \<and> (\<exists>g\<in>set words. heap s' 0 = remove1 g words))"
  using assms
proof (induction n arbitrary: s)
  case 0 then show ?case by auto
next
  case (Suc n)
  from Suc.prems(1) obtain f where f: "attempt solver t s = Some f"
    by (auto split: option.splits)
  note step = attempt_caller_list[OF f Suc.prems(2,3)]
  show ?case
  proof (cases f)
    case (Return r)
    then show ?thesis using Suc.prems(1) f step(1) by simp
  next
    case (Continue c)
    then have run: "attempts solver t n c = Some s'" using Suc.prems(1) f by simp
    have "0 < fresh c" "guesses (response c) \<noteq> []" "0 < valid_words c"
      using step(2)[OF Continue] by simp_all
    moreover have "\<exists>g\<in>set words. heap c 0 = remove1 g words"
      using step(1) Continue \<open>guesses (response c) \<noteq> []\<close> by simp
    ultimately show ?thesis using Suc.IH[OF run] by blast
  qed
qed

lemma caller_list_after_call:
  assumes "solve_wordle solver words target_word max_attempts = Some (r, l)"
  shows "(guesses r = [] \<and> l = words) \<or> (guesses r \<noteq> [] \<and> (\<exists>g\<in>set words. l = remove1 g words))"
proof -
  from assms obtain s0 s where s0: "start words = Some s0"
    and s: "attempts solver (encode target_word) (nat max_attempts) s0 = Some s"
    and r: "r = response s" "l = heap s 0"
    by (auto simp: solve_wordle_def split: bind_splits)
  have "0 < fresh s0" using s0 by (auto simp: start_def split: bind_splits)
  moreover have "guesses (response s0) = [] \<and> valid_words s0 = 0 \<and> heap s0 0 = words"
    using start_response[OF s0] by simp
  ultimately show ?thesis using attempts_caller_list[OF s, of words] r by blast
qed

subsection \<open>Evaluating the examples\<close>

lemma Some_the: "\<not> Option.is_none x \<Longrightarrow> x = Some (the x)"
  by (cases x) simp_all

lemma run_crane:
  "solve_wordle exhaustive_solver words_data ''crane'' 6 =
     Some (\<lparr>guesses = [''trace'', ''crane''], feedback = [''BGGYG'', ''GGGGG''],
            nb_possible_words = [3, 0]\<rparr>,
           map encode [''crane'', ''slate'', ''irate''])"
  by code_simp

section \<open>Claims about solve_wordle\<close>

text \<open>
  Claim C2, as stated: the letter frequencies behind the score are recomputed at the start
  of every round from the current, filtered candidate list. The code computes them before
  the loop (lines 201-217) and passes the same tables to \<open>update_heuristic\<close> in every
  round. On the example dictionary with target crane, the first round leaves the single
  candidate crane; the model of the second round still carries the frequencies and the
  objective of the four-word dictionary, which differ from those of the list [crane].
\<close>

theorem frequencies_counterexample:
  "map_option current after_first_round = Some [encode ''crane'']
   \<and> map_option positional_freq after_first_round = positional_frequencies words_data
   \<and> map_option positional_freq after_first_round \<noteq> positional_frequencies [encode ''crane'']
   \<and> map_option letter_frequency after_first_round = Some (letter_frequencies words_data)
   \<and> map_option letter_frequency after_first_round \<noteq> Some (letter_frequencies [encode ''crane''])
   \<and> next_objective after_first_round = Some (objective_from words_data)
   \<and> next_objective after_first_round \<noteq> Some (objective_from [encode ''crane''])"
  by code_simp

text \<open>
  Claim C2, amended: the letter frequencies are computed once, before the first round,
  from the word list the caller supplies. After any number of rounds the state holds these
  same tables, and the objective of the model handed to the solver in the next round is the
  heuristic built from them.
\<close>

theorem frequencies_computed_once:
  assumes "start words = Some s0" "attempts solver t k s0 = Some s" "prepare s = Some m"
  shows "positional_frequencies words = Some (positional_freq s)
       \<and> letter_frequency s = letter_frequencies words
       \<and> objective m = Some (heuristic (positional_freq s) (letter_frequency s))"
  using attempts_frequencies[OF assms(2)] start_response(6,7)[OF assms(1)]
    prepare_constraints(2)[OF assms(3)] by simp

theorem frequencies_computed_once_witness:
  "positional_frequencies words_data = Some (positional_freq (the after_first_round))
   \<and> letter_frequency (the after_first_round) = letter_frequencies words_data
   \<and> objective (the (prepare (the after_first_round)))
       = Some (heuristic (positional_freq (the after_first_round)) (letter_frequency (the after_first_round)))"
proof -
  have "\<not> Option.is_none (start words_data)" by code_simp
  then have s0: "start words_data = Some first_state" unfolding first_state_def by (rule Some_the)
  have "\<not> Option.is_none after_first_round" by code_simp
  then have "after_first_round = Some (the after_first_round)" by (rule Some_the)
  then have s1: "attempts exhaustive_solver (encode ''crane'') 1 first_state = Some (the after_first_round)"
    using s0 by (simp add: after_first_round_def)
  have "\<not> Option.is_none (prepare (the after_first_round))" by code_simp
  then have p: "prepare (the after_first_round) = Some (the (prepare (the after_first_round)))"
    by (rule Some_the)
  show ?thesis by (rule frequencies_computed_once[OF s0 s1 p])
qed

text \<open>
  Claim C3, as stated: the entry appended to \<open>nb_possible_words\<close> in a round is the size
  of the candidate list after \<open>filter_valid_words\<close> has been applied with that round's
  guess and feedback. On the example dictionary with target crane the first round guesses
  trace and records 3, while filtering with trace and its feedback leaves one word,
  whether the filter is applied to the list without the guess or to the whole list.
\<close>

theorem nb_possible_words_counterexample:
  "solve_wordle exhaustive_solver words_data ''crane'' 6 =
     Some (\<lparr>guesses = [''trace'', ''crane''], feedback = [''BGGYG'', ''GGGGG''],
            nb_possible_words = [3, 0]\<rparr>,
           map encode [''crane'', ''slate'', ''irate''])
   \<and> filter_valid_words (remove1 (encode ''trace'') words_data) (encode ''trace'') ''BGGYG''
       = Some [encode ''crane'']
   \<and> filter_valid_words words_data (encode ''trace'') ''BGGYG'' = Some [encode ''crane'']
   \<and> nb_possible_words (fst (the (solve_wordle exhaustive_solver words_data ''crane'' 6))) ! 0
       \<noteq> length [encode ''crane'']"
  by code_simp

text \<open>
  Claim C3, amended: in every round in which the solver returns a guess, the entry
  appended to \<open>nb_possible_words\<close> is the length of the candidate list once the guess has
  been removed from it (line 262), that is the length at the start of the round minus one;
  it is taken before \<open>filter_valid_words\<close> is applied with that round's feedback.
\<close>

theorem nb_possible_words_before_filter:
  assumes "attempt solver t s = Some f" "prepare s = Some m"
    and "fst (solver m) = OPTIMAL \<or> fst (solver m) = FEASIBLE"
  shows "nb_possible_words (response (flow_state f)) =
           nb_possible_words (response s) @ [length (remove1 (map (snd (solver m)) [0..<5]) (current s))]
         \<and> length (remove1 (map (snd (solver m)) [0..<5]) (current s)) = length (current s) - 1"
  using assms(1)
proof (cases rule: attempt_cases)
  case (infeasible m0)
  then show ?thesis using assms(2,3) by auto
next
  case (solved m0 guess remaining guess_str)
  then have "m0 = m" using assms(2) by simp
  then show ?thesis using solved
    by (auto simp: list_remove_def length_remove1 split: if_splits)
next
  case (continue m0 guess remaining guess_str filtered m')
  then have "m0 = m" using assms(2) by simp
  then show ?thesis using continue
    by (auto simp: list_remove_def length_remove1 split: if_splits)
qed

theorem nb_possible_words_before_filter_witness:
  "nb_possible_words (response (flow_state (the (attempt exhaustive_solver (encode ''crane'') first_state))))
     = [3]"
proof -
  let ?s = first_state
  have "\<not> Option.is_none (attempt exhaustive_solver (encode ''crane'') ?s)" by code_simp
  then have a: "attempt exhaustive_solver (encode ''crane'') ?s
                  = Some (the (attempt exhaustive_solver (encode ''crane'') ?s))"
    by (rule Some_the)
  have "\<not> Option.is_none (prepare ?s)" by code_simp
  then have p: "prepare ?s = Some (the (prepare ?s))" by (rule Some_the)
  have st: "fst (exhaustive_solver (the (prepare ?s))) = OPTIMAL
          \<or> fst (exhaustive_solver (the (prepare ?s))) = FEASIBLE" by code_simp
  have e: "nb_possible_words (response ?s) = []" by code_simp
  have n: "length (remove1 (map (snd (exhaustive_solver (the (prepare ?s)))) [0..<5]) (current ?s)) = 3"
    by code_simp
  from nb_possible_words_before_filter[OF a p st] show ?thesis by (simp only: e n append_Nil)
qed

text \<open>
  Claim C4: \<open>solve_wordle\<close> never changes the list its caller supplies. The code at the
  example input: \<open>valid_words.remove(guess)\<close> in the first round acts on the caller's
  list object, since \<open>valid_words\<close> is rebound to a fresh list only at line 274. After the
  call on the four-word dictionary with target crane the caller's list has lost the first
  guess, trace. (\<open>caller_list_after_call\<close> above: every call that makes a guess takes one
  word out of the caller's list.)
\<close>

theorem caller_list_mutated:
  "solve_wordle exhaustive_solver words_data ''crane'' 6 =
     Some (\<lparr>guesses = [''trace'', ''crane''], feedback = [''BGGYG'', ''GGGGG''],
            nb_possible_words = [3, 0]\<rparr>,
           map encode [''crane'', ''slate'', ''irate''])
   \<and> map encode [''crane'', ''slate'', ''irate''] \<noteq> words_data"
  by code_simp

text \<open>
  Claim C7. With a solver that respects the model, the guesses of a returned response are
  pairwise different.
\<close>

theorem no_guess_twice:
  assumes "sound solver" "solve_wordle solver words target_word max_attempts = Some (r, l)"
  shows "distinct (guesses r)"
proof -
  from assms(2) obtain s0 s where s0: "start words = Some s0"
    and s: "attempts solver (encode target_word) (nat max_attempts) s0 = Some s"
    and r: "r = response s"
    by (auto simp: solve_wordle_def split: bind_splits)
  have "distinct (guesses (response s0))" "guessed_excluded s0"
    using start_response(1)[OF s0] by (simp_all add: guessed_excluded_def)
  from attempts_distinct[OF assms(1) s this] show ?thesis using r by simp
qed

theorem no_guess_twice_witness:
  "sound exhaustive_solver \<and> distinct [''trace'', ''crane'']"
  using no_guess_twice[OF exhaustive_solver_sound run_crane] exhaustive_solver_sound by simp

text \<open>
  Claim C8. From any state of the loop with at least one round left, when the candidate
  list is empty, or no candidate meets the constraints accumulated in the model, or the
  solver reports no assignment, \<open>solve_wordle\<close> returns without an exception and the
  response is the one accumulated so far, unchanged: nothing is appended for this round or
  a later one.
\<close>

theorem infeasible_returns_history:
  assumes "sound solver" "\<forall>w\<in>set (current s). length w = 5"
    and "current s = [] \<or> unsatisfiable s \<or> no_solution solver s"
  shows "\<exists>s'. attempts solver t (Suc n) s = Some s' \<and> response s' = response s"
proof -
  let ?m = "\<lparr>constraints = constraints (model s) @ [AllowedAssignments (current s), Channeling],
           objective = Some (heuristic (positional_freq s) (letter_frequency s))\<rparr>"
  have pm: "prepare s = Some ?m" by (rule prepare_Some[OF assms(2)])
  let ?g = "map (snd (solver ?m)) [0..<5]"
  have mem: "satisfies ?m ?g \<and> ?g \<in> set (current s)"
    if "fst (solver ?m) = OPTIMAL \<or> fst (solver ?m) = FEASIBLE"
  proof -
    have sg: "satisfies ?m ?g" by (rule satisfies_guess[OF assms(1) that])
    from satisfiesD(3)[OF sg] have "sat (AllowedAssignments (current s)) ?g" by simp
    then show ?thesis using sg by simp
  qed
  have inf: "fst (solver ?m) \<noteq> OPTIMAL \<and> fst (solver ?m) \<noteq> FEASIBLE"
  proof (rule ccontr)
    assume "\<not> ?thesis"
    then have f: "fst (solver ?m) = OPTIMAL \<or> fst (solver ?m) = FEASIBLE" by blast
    from assms(3) consider "current s = []" | "unsatisfiable s" | "no_solution solver s" by blast
    then show False
    proof cases
      case 1 then show ?thesis using mem[OF f] by simp
    next
      case 2
      then have "\<not> list_ex (satisfies ?m) (current s)" using pm by (simp add: unsatisfiable_def)
      then show ?thesis using mem[OF f] by (auto simp: list_ex_iff)
    next
      case 3 then show ?thesis using pm f by (simp add: no_solution_def)
    qed
  qed
  from attempt_infeasible[OF pm] inf
  have "attempt solver t s = Some (Return (s\<lparr>model := ?m\<rparr>))" by blast
  then show ?thesis by simp
qed

theorem infeasible_returns_history_witness:
  "current stuck_state = []
   \<and> guesses (response stuck_state) = [''trace'']
   \<and> (\<exists>s'. attempts exhaustive_solver (encode ''zzzzz'') (Suc 4) stuck_state = Some s'
            \<and> response s' = response stuck_state)"
proof -
  have c: "current stuck_state = []" by code_simp
  have g: "guesses (response stuck_state) = [''trace'']" by code_simp
  have w: "\<forall>w\<in>set (current stuck_state). length w = 5" by (simp add: c)
  have d: "current stuck_state = [] \<or> unsatisfiable stuck_state
           \<or> no_solution exhaustive_solver stuck_state" by (simp add: c)
  from infeasible_returns_history[OF exhaustive_solver_sound w d, of "encode ''zzzzz''" 4] c g
  show ?thesis by blast
qed

text \<open>
  Claim C9. \<open>solve_wordle\<close> returns, and the response holds at most \<open>max_attempts\<close>
  guesses (none for a negative \<open>max_attempts\<close>). The loop is a recursion on the number
  of rounds left, so the model is a total function; the theorem adds that for 5-letter
  words and target and a solver that respects the model the result is a response, not an
  exception.
\<close>

theorem solve_wordle_bounded:
  assumes "sound solver" "\<forall>w\<in>set words. length w = 5" "length target_word = 5"
  shows "\<exists>r l. solve_wordle solver words target_word max_attempts = Some (r, l)
               \<and> int (length (guesses r)) \<le> max 0 max_attempts"
proof -
  from start_Some[OF assms(2)] obtain s0 where s0: "start words = Some s0" by blast
  have wf: "\<forall>w\<in>set (current s0). length w = 5" using start_response(3)[OF s0] assms(2) by simp
  have t: "length (encode target_word) = 5" using assms(3) by (simp add: encode_def)
  from attempts_returns[OF assms(1) t wf] obtain s where
    s: "attempts solver (encode target_word) (nat max_attempts) s0 = Some s" by blast
  have "length (guesses (response s)) \<le> nat max_attempts"
    using attempts_length[OF s] start_response(1)[OF s0] by simp
  then have "int (length (guesses (response s))) \<le> max 0 max_attempts" by linarith
  then show ?thesis using s0 s by (simp add: solve_wordle_def)
qed

theorem solve_wordle_bounded_witness:
  "\<exists>r l. solve_wordle exhaustive_solver words_data ''crane'' 1 = Some (r, l)
         \<and> int (length (guesses r)) \<le> max 0 1"
proof -
  have w: "\<forall>w\<in>set words_data. length w = 5" by (simp add: words_data_def encode_def)
  have t: "length ''crane'' = 5" by simp
  show ?thesis by (rule solve_wordle_bounded[OF exhaustive_solver_sound w t])
qed

end
